theory Spec2Isabelle
  imports Main "HOL-Library.Sublist"
begin

section \<open>Python strings\<close>

text \<open>
  A Python \<open>str\<close> is modelled as a \<open>string\<close> whose characters are the code points
  0..255.  \<open>isspace\<close> is \<open>str.isspace\<close> on one character (it is also what the regular
  expression class \<open>\s\<close> matches on a \<open>str\<close> pattern), \<open>lower\<close> is \<open>str.lower\<close>,
  \<open>strip\<close> is \<open>str.strip()\<close> and \<open>str_in sub s\<close> is the test \<open>sub in s\<close>.
\<close>

definition isspace :: "char \<Rightarrow> bool" where
  "isspace c = (of_char c \<in> {9, 10, 11, 12, 13, 28, 29, 30, 31, 32, 133, 160 :: nat})"

definition lower_char :: "char \<Rightarrow> char" where
  "lower_char c =
     (let n = of_char c :: nat
      in if (65 \<le> n \<and> n \<le> 90) \<or> (192 \<le> n \<and> n \<le> 222 \<and> n \<noteq> 215)
         then char_of (n + 32) else c)"

definition lower :: "string \<Rightarrow> string" where
  "lower s = map lower_char s"

definition lstrip :: "string \<Rightarrow> string" where
  "lstrip s = dropWhile isspace s"

definition rstrip :: "string \<Rightarrow> string" where
  "rstrip s = rev (dropWhile isspace (rev s))"

definition strip :: "string \<Rightarrow> string" where
  "strip s = rstrip (lstrip s)"

fun str_in :: "string \<Rightarrow> string \<Rightarrow> bool" where
  "str_in sub [] = (sub = [])"
| "str_in sub (c # cs) = (prefix sub (c # cs) \<or> str_in sub cs)"

definition startswith :: "string \<Rightarrow> string \<Rightarrow> bool" where
  "startswith s p = (take (length p) s = p)"

definition endswith :: "string \<Rightarrow> string \<Rightarrow> bool" where
  "endswith s p = (length p \<le> length s \<and> drop (length s - length p) s = p)"

text \<open>\<open>s.find(c)\<close> for a one-character needle: the first index, or \<open>None\<close> for \<open>-1\<close>.\<close>

definition str_find :: "string \<Rightarrow> char \<Rightarrow> nat option" where
  "str_find s c = (if c \<in> set s then Some (length (takeWhile (\<lambda>x. x \<noteq> c) s)) else None)"

text \<open>\<open>s.replace(c, r)\<close> for a one-character pattern.\<close>

definition str_replace :: "string \<Rightarrow> char \<Rightarrow> string \<Rightarrow> string" where
  "str_replace s c r = concat (map (\<lambda>x. if x = c then r else [x]) s)"

section \<open>Values and validation errors\<close>

text \<open>
  The untyped input (a Python value as \<open>json.load\<close> builds it) and the validated
  values.  A \<open>dict\<close> is an association list, read with \<open>map_of\<close>; a float is kept as
  its lexeme, since no rule of the schema looks inside one.
\<close>

datatype json =
    JNull
  | JBool bool
  | JInt int
  | JFloat string
  | JStr string
  | JArr "json list"
  | JObj "(string \<times> json) list"

datatype loc_item = Key string | Idx nat

type_synonym loc = "loc_item list"

text \<open>The \<open>type\<close> entry of an error of the report.\<close>

datatype ekind =
    missing
  | string_type
  | string_too_short
  | list_type
  | too_short
  | literal_error
  | model_type
  | value_error
  | unexpected_error
  | file_loading_error

text \<open>The \<open>ValueError\<close>s raised by the validators of the schema, with what their text embeds.\<close>

datatype verr =
    ToneOverlap "string set"
  | HallucinationFormat "string list"
  | SlangEmpty
  | SlangTooLong string
  | TimestampFormat string

text \<open>
  The \<open>msg\<close> entry: the library's standard text for the error kind, the text of a
  \<open>ValueError\<close> raised by the schema, or the text of the \<open>TypeError\<close> that
  unpacking a value which is no mapping raises.
\<close>

datatype message = Standard | ValueErrorMsg verr | TypeErrorText

record verror =
  etype :: ekind
  eloc :: loc
  emsg :: message
  einput :: json

definition mk_error :: "ekind \<Rightarrow> loc \<Rightarrow> message \<Rightarrow> json \<Rightarrow> verror" where
  "mk_error k p m v = \<lparr>etype = k, eloc = p, emsg = m, einput = v\<rparr>"

section \<open>The validation library, as the schema uses it\<close>

text \<open>
  A validator takes the location of the value and the value; it returns the list of the
  errors found (\<open>Inl\<close>) or the validated value (\<open>Inr\<close>).

  The root model sets \<open>str_strip_whitespace\<close>, and declares no string field of its
  own.  The library applies the configuration of a model to the fields of that model and
  not to the models nested in it, so no string of the document is stripped: that is
  \<open>nested_strip = False\<close>.  With \<open>nested_strip = True\<close> the setting of the root reaches
  the string fields of the nested models; the theorems that quantify over the environment
  hold for both.  \<open>fromisoformat_ok\<close> says which strings \<open>datetime.fromisoformat\<close>
  accepts.
\<close>

type_synonym validator = "loc \<Rightarrow> json \<Rightarrow> verror list + json"

record env =
  nested_strip :: bool
  fromisoformat_ok :: "string \<Rightarrow> bool"

definition ingest :: "bool \<Rightarrow> string \<Rightarrow> string" where
  "ingest sw s = (if sw then strip s else s)"

text \<open>\<open>str\<close> with \<open>min_length\<close> (0 when the field declares none).\<close>

definition str_schema :: "bool \<Rightarrow> nat \<Rightarrow> validator" where
  "str_schema sw min_len p v =
     (case v of
        JStr s \<Rightarrow>
          if length (ingest sw s) < min_len
          then Inl [mk_error string_too_short p Standard v]
          else Inr (JStr (ingest sw s))
      | _ \<Rightarrow> Inl [mk_error string_type p Standard v])"

text \<open>\<open>Literal[...]\<close> of strings.\<close>

definition literal_schema :: "string list \<Rightarrow> validator" where
  "literal_schema expected p v =
     (case v of
        JStr s \<Rightarrow> if s \<in> set expected then Inr v else Inl [mk_error literal_error p Standard v]
      | _ \<Rightarrow> Inl [mk_error literal_error p Standard v])"

text \<open>\<open>Optional[...]\<close>: \<open>None\<close> passes, anything else goes to the inner validator.\<close>

definition nullable :: "validator \<Rightarrow> validator" where
  "nullable inner p v = (if v = JNull then Inr JNull else inner p v)"

text \<open>
  Errors are aggregated: every result is looked at, and the errors of all of them are
  returned together, in order.
\<close>

fun collect :: "(verror list + 'a) list \<Rightarrow> verror list + 'a list" where
  "collect [] = Inr []"
| "collect (r # rs) =
     (case r of
        Inl es \<Rightarrow> (case collect rs of Inl es' \<Rightarrow> Inl (es @ es') | Inr _ \<Rightarrow> Inl es)
      | Inr x \<Rightarrow> (case collect rs of Inl es' \<Rightarrow> Inl es' | Inr xs \<Rightarrow> Inr (x # xs)))"

text \<open>\<open>List[...]\<close> with \<open>min_length\<close>: the items first, each at its index, then the length.\<close>

definition list_schema :: "validator \<Rightarrow> nat \<Rightarrow> validator" where
  "list_schema item min_len p v =
     (case v of
        JArr xs \<Rightarrow>
          (case collect (map (\<lambda>(i, x). item (p @ [Idx i]) x) (enumerate 0 xs)) of
             Inl es \<Rightarrow> Inl es
           | Inr ys \<Rightarrow>
               if length ys < min_len then Inl [mk_error too_short p Standard v]
               else Inr (JArr ys))
      | _ \<Rightarrow> Inl [mk_error list_type p Standard v])"

text \<open>
  A \<open>field_validator\<close> or \<open>model_validator\<close> in mode \<open>after\<close>: it runs on the validated
  value, so only when the inner validation found no error; the \<open>ValueError\<close> it raises
  becomes one \<open>value_error\<close> at the location of the value.
\<close>

definition after_validator :: "(json \<Rightarrow> verr + json) \<Rightarrow> validator \<Rightarrow> validator" where
  "after_validator f inner p v =
     (case inner p v of
        Inl es \<Rightarrow> Inl es
      | Inr x \<Rightarrow>
          (case f x of
             Inl e \<Rightarrow> Inl [mk_error value_error p (ValueErrorMsg e) v]
           | Inr y \<Rightarrow> Inr y))"

text \<open>A field is required (\<open>...\<close>) or has a default.\<close>

datatype presence = Required | Default json

type_synonym field = "string \<times> presence \<times> validator"

definition validate_field :: "loc \<Rightarrow> json \<Rightarrow> (string \<times> json) list \<Rightarrow> field \<Rightarrow> verror list + json" where
  "validate_field p v kvs f =
     (case f of (name, pres, schema) \<Rightarrow>
        (case map_of kvs name of
           Some x \<Rightarrow> schema (p @ [Key name]) x
         | None \<Rightarrow>
             (case pres of
                Required \<Rightarrow> Inl [mk_error missing (p @ [Key name]) Standard v]
              | Default d \<Rightarrow> Inr d)))"

text \<open>
  A model (a \<open>BaseModel\<close> class): the fields are validated in the order of their
  declaration, keys that are not declared are ignored, and the validated model keeps the
  declared fields only.
\<close>

definition base_model :: "field list \<Rightarrow> validator" where
  "base_model flds p v =
     (case v of
        JObj kvs \<Rightarrow>
          (case collect (map (validate_field p v kvs) flds) of
             Inl es \<Rightarrow> Inl es
           | Inr xs \<Rightarrow> Inr (JObj (zip (map fst flds) xs)))
      | _ \<Rightarrow> Inl [mk_error model_type p Standard v])"

text \<open>Attribute access on a validated model, and the strings of a validated \<open>List[str]\<close>.\<close>

definition attr :: "json \<Rightarrow> string \<Rightarrow> json" where
  "attr self name =
     (case self of
        JObj kvs \<Rightarrow> (case map_of kvs name of Some x \<Rightarrow> x | None \<Rightarrow> JNull)
      | _ \<Rightarrow> JNull)"

definition str_of :: "json \<Rightarrow> string" where
  "str_of v = (case v of JStr s \<Rightarrow> s | _ \<Rightarrow> [])"

definition strs_of :: "json \<Rightarrow> string list" where
  "strs_of v = (case v of JArr xs \<Rightarrow> map str_of xs | _ \<Rightarrow> [])"


definition on_str :: "(string \<Rightarrow> verr + string) \<Rightarrow> json \<Rightarrow> verr + json" where
  "on_str f x = (case f (str_of x) of Inl e \<Rightarrow> Inl e | Inr s \<Rightarrow> Inr (JStr s))"

definition on_strs :: "(string list \<Rightarrow> verr + string list) \<Rightarrow> json \<Rightarrow> verr + json" where
  "on_strs f x = (case f (strs_of x) of Inl e \<Rightarrow> Inl e | Inr ss \<Rightarrow> Inr (JArr (map JStr ss)))"

section \<open>The schema (schemas/narrative\_genesis\_schema.py)\<close>

definition check_no_overlap :: "json \<Rightarrow> verr + json" where
  "check_no_overlap self =
     (let allowed_set = set (map lower (strs_of (attr self ''allowed'')));
          forbidden_set = set (map lower (strs_of (attr self ''forbidden'')));
          overlap = allowed_set \<inter> forbidden_set
      in if overlap \<noteq> {} then Inl (ToneOverlap overlap) else Inr self)"

definition ToneGuardrails :: "bool \<Rightarrow> validator" where
  "ToneGuardrails sw =
     after_validator check_no_overlap
       (base_model
          [(''allowed'', Required, list_schema (str_schema sw 0) 1),
           (''forbidden'', Required, list_schema (str_schema sw 0) 1)])"

definition BrandIdentityCore :: "bool \<Rightarrow> validator" where
  "BrandIdentityCore sw =
     base_model
       [(''product_name'', Required, str_schema sw 1),
        (''archetype'', Required, str_schema sw 1),
        (''core_philosophy'', Required, str_schema sw 1),
        (''tone_guardrails'', Required, ToneGuardrails sw)]"

definition TheWorld :: "bool \<Rightarrow> validator" where
  "TheWorld sw =
     base_model
       [(''description'', Required, str_schema sw 1),
        (''consensus_reality'', Required, str_schema sw 1)]"

definition TheEnemy :: "bool \<Rightarrow> validator" where
  "TheEnemy sw =
     base_model
       [(''name'', Required, str_schema sw 1),
        (''manifestation'', Required, str_schema sw 1),
        (''why_fight_it'', Required, str_schema sw 1)]"

definition TheChangeVehicle :: "bool \<Rightarrow> validator" where
  "TheChangeVehicle sw =
     base_model
       [(''what_is_new'', Required, str_schema sw 1),
        (''mechanism'', Required, str_schema sw 1)]"

definition ThePromisedLand :: "bool \<Rightarrow> validator" where
  "ThePromisedLand sw =
     base_model
       [(''vision'', Required, str_schema sw 1),
        (''emotional_payoff'', Required, str_schema sw 1)]"

definition TransformationThesis :: "bool \<Rightarrow> validator" where
  "TransformationThesis sw =
     base_model
       [(''from_state'', Required, str_schema sw 1),
        (''to_state'', Required, str_schema sw 1)]"

definition StrategicNarrativeFramework :: "bool \<Rightarrow> validator" where
  "StrategicNarrativeFramework sw =
     base_model
       [(''comment'', Default JNull, nullable (str_schema sw 0)),
        (''the_world_status_quo'', Required, TheWorld sw),
        (''the_enemy'', Required, TheEnemy sw),
        (''the_change_vehicle'', Required, TheChangeVehicle sw),
        (''the_promised_land'', Required, ThePromisedLand sw),
        (''transformation_thesis'', Required, TransformationThesis sw),
        (''proof_points'', Required, list_schema (str_schema sw 0) 1)]"

definition BasePersona :: "bool \<Rightarrow> validator" where
  "BasePersona sw =
     base_model
       [(''name'', Required, str_schema sw 1),
        (''role'', Required, str_schema sw 1),
        (''demographics'', Required, str_schema sw 1),
        (''product_relation'', Required,
           literal_schema
             [''The Unaware/Novice'', ''The Skeptic'', ''The Stumbler'', ''The Convert'']),
        (''social_setting'', Default JNull, nullable (str_schema sw 0))]"

definition LoreSeed :: "bool \<Rightarrow> validator" where
  "LoreSeed sw =
     base_model
       [(''central_belief'', Required, str_schema sw 1),
        (''internal_monologue_style'', Required, str_schema sw 1),
        (''obsession_topics'', Required, list_schema (str_schema sw 0) 1),
        (''affliction'', Required, str_schema sw 1),
        (''aspiration'', Required, str_schema sw 1)]"

definition valid_values :: "string list" where
  "valid_values = [''Allowed'', ''Not Allowed'', ''Limited'']"

definition validate_hallucination :: "string \<Rightarrow> verr + string" where
  "validate_hallucination v =
     (if \<not> list_ex (\<lambda>valid. str_in valid v) valid_values
      then Inl (HallucinationFormat valid_values)
      else Inr v)"

text \<open>The field \<open>hallucination_permission\<close> with its \<open>field_validator\<close>.\<close>

definition hallucination_permission :: "bool \<Rightarrow> validator" where
  "hallucination_permission sw =
     after_validator (on_str validate_hallucination) (str_schema sw 1)"

definition EvolutionParameters :: "bool \<Rightarrow> validator" where
  "EvolutionParameters sw =
     base_model
       [(''autonomy_level'', Required, literal_schema [''Low'', ''Medium'', ''High'']),
        (''memory_retention'', Required, str_schema sw 1),
        (''hallucination_permission'', Required, hallucination_permission sw)]"

definition AutonomousCharacterSeed :: "bool \<Rightarrow> validator" where
  "AutonomousCharacterSeed sw =
     base_model
       [(''comment'', Default JNull, nullable (str_schema sw 0)),
        (''base_persona'', Required, BasePersona sw),
        (''lore_seed'', Required, LoreSeed sw),
        (''evolution_parameters'', Required, EvolutionParameters sw)]"

text \<open>The loop of \<open>validate_slang\<close>: the first entry that fails decides the error.\<close>

fun first_bad_slang :: "string list \<Rightarrow> verr option" where
  "first_bad_slang [] = None"
| "first_bad_slang (slang # rest) =
     (if slang = [] \<or> length (strip slang) = 0 then Some SlangEmpty
      else if length slang > 50 then Some (SlangTooLong (take 30 slang))
      else first_bad_slang rest)"

definition validate_slang :: "string list \<Rightarrow> verr + string list" where
  "validate_slang v = (case first_bad_slang v of Some e \<Rightarrow> Inl e | None \<Rightarrow> Inr v)"

definition LanguageModel :: "bool \<Rightarrow> validator" where
  "LanguageModel sw =
     base_model
       [(''slang_whitelist'', Required,
           after_validator (on_strs validate_slang) (list_schema (str_schema sw 0) 1)),
        (''cultural_references'', Required, list_schema (str_schema sw 0) 1)]"

definition TargetAudienceContext :: "bool \<Rightarrow> validator" where
  "TargetAudienceContext sw =
     base_model
       [(''persona_code'', Required, str_schema sw 1),
        (''pain_points'', Required, list_schema (str_schema sw 0) 1),
        (''language_model'', Required, LanguageModel sw)]"

definition validate_timestamp :: "(string \<Rightarrow> bool) \<Rightarrow> string \<Rightarrow> verr + string" where
  "validate_timestamp iso_ok v =
     (if iso_ok (str_replace v (CHR ''Z'') ''+00:00'') then Inr v
      else Inl (TimestampFormat v))"

definition Meta :: "env \<Rightarrow> validator" where
  "Meta E =
     base_model
       [(''project_name'', Required, str_schema (nested_strip E) 0),
        (''version'', Required, str_schema (nested_strip E) 0),
        (''input_by'', Required, str_schema (nested_strip E) 0),
        (''timestamp'', Required,
           after_validator (on_str (validate_timestamp (fromisoformat_ok E)))
             (str_schema (nested_strip E) 0))]"

text \<open>
  \<open>validate_consistency\<close> computes its two conditions and raises nothing: every path
  returns the model.
\<close>

definition validate_consistency :: "json \<Rightarrow> verr + json" where
  "validate_consistency self =
     (let character_demo =
            lower (str_of (attr (attr (attr self ''autonomous_character_seed'') ''base_persona'')
                             ''demographics''));
          target_code = lower (str_of (attr (attr self ''target_audience_context'') ''persona_code''))
      in if str_in ''genz'' target_code \<or> str_in ''gen_z'' target_code
         then (if \<not> list_ex (\<lambda>term. str_in term character_demo)
                       [''24'', ''23'', ''25'', ''26'', ''gen z'', ''genz'']
               then Inr self else Inr self)
         else Inr self)"

definition NarrativeGenesisInput :: "env \<Rightarrow> validator" where
  "NarrativeGenesisInput E =
     after_validator validate_consistency
       (base_model
          [(''meta'', Required, Meta E),
           (''brand_identity_core'', Required, BrandIdentityCore (nested_strip E)),
           (''strategic_narrative_framework'', Required,
              StrategicNarrativeFramework (nested_strip E)),
           (''autonomous_character_seed'', Required, AutonomousCharacterSeed (nested_strip E)),
           (''target_audience_context'', Required, TargetAudienceContext (nested_strip E))])"

section \<open>The validator (processors/validator.py)\<close>

record validation_report =
  is_valid :: bool
  errors :: "verror list"
  data :: "json option"

record narrative_validator =
  last_report :: "validation_report option"

definition perform_business_logic_checks :: "json \<Rightarrow> string list" where
  "perform_business_logic_checks validated_input =
     (let archetype = lower (str_of (attr (attr validated_input ''brand_identity_core'') ''archetype''));
          allowed_tones =
            map lower
              (strs_of (attr (attr (attr validated_input ''brand_identity_core'') ''tone_guardrails'')
                          ''allowed''));
          w1 = (if str_in ''rebel'' archetype \<and>
                   \<not> list_ex (\<lambda>tone. tone \<in> set [''sarcastic'', ''raw'', ''unfiltered'']) allowed_tones
                then [''Archetype is 'Rebel' but tone doesn't include rebellious characteristics'']
                else []);
          proof_points =
            strs_of (attr (attr validated_input ''strategic_narrative_framework'') ''proof_points'');
          w2 = (if list_ex (\<lambda>point. length point < 20) proof_points
                then [''Some proof points seem too short - consider adding more detail'']
                else []);
          demo = str_of (attr (attr (attr validated_input ''autonomous_character_seed'') ''base_persona'')
                           ''demographics'');
          pain_points = strs_of (attr (attr validated_input ''target_audience_context'') ''pain_points'');
          w3 = (if list_ex (\<lambda>p. str_in ''gaji'' (lower p) \<or> str_in ''salary'' (lower p)) pain_points \<and>
                   \<not> list_ex (\<lambda>term. str_in term (lower demo)) [''gaji'', ''salary'', ''umr'', ''debt'']
                then [''Target audience has salary pain points but character demographics don't mention income/debt'']
                else [])
      in w1 @ w2 @ w3)"

text \<open>
  \<open>validate_from_dict\<close>: the report, the validator with \<open>last_report\<close> set, and the
  warnings printed.  Unpacking \<open>**data\<close> raises a \<open>TypeError\<close> when \<open>data\<close> is no
  mapping, which the last handler turns into one \<open>unexpected_error\<close>.
\<close>

definition validate_from_dict ::
  "env \<Rightarrow> narrative_validator \<Rightarrow> json \<Rightarrow> validation_report \<times> narrative_validator \<times> string list" where
  "validate_from_dict E self input =
     (case input of
        JObj _ \<Rightarrow>
          (case NarrativeGenesisInput E [] input of
             Inr validated_input \<Rightarrow>
               (let warnings = perform_business_logic_checks validated_input;
                    report = \<lparr>is_valid = True, errors = [], data = Some validated_input\<rparr>
                in (report, self\<lparr>last_report := Some report\<rparr>, warnings))
           | Inl es \<Rightarrow>
               (let report =
                      \<lparr>is_valid = False,
                       errors = map (\<lambda>error. mk_error (etype error) (eloc error) (emsg error)
                                               (einput error)) es,
                       data = None\<rparr>
                in (report, self\<lparr>last_report := Some report\<rparr>, [])))
      | _ \<Rightarrow>
          (let report =
                 \<lparr>is_valid = False,
                  errors = [mk_error unexpected_error [Key ''root''] TypeErrorText (JStr ''N/A'')],
                  data = None\<rparr>
           in (report, self\<lparr>last_report := Some report\<rparr>, [])))"

section \<open>Reading documents and reports\<close>

text \<open>The value under a path of keys, when every step goes through a mapping.\<close>

fun get_path :: "json \<Rightarrow> string list \<Rightarrow> json option" where
  "get_path v [] = Some v"
| "get_path v (k # ks) =
     (case v of
        JObj kvs \<Rightarrow> (case map_of kvs k of Some x \<Rightarrow> get_path x ks | None \<Rightarrow> None)
      | _ \<Rightarrow> None)"

text \<open>
  \<open>declares V ks fld\<close>: the model reached from the validator \<open>V\<close> along the keys \<open>ks\<close>
  declares the field \<open>fld\<close>.
\<close>

inductive declares :: "validator \<Rightarrow> string list \<Rightarrow> field \<Rightarrow> bool" where
  own: "fld \<in> set flds \<Longrightarrow> declares (base_model flds) [] fld"
| sub: "(n, pres, W) \<in> set flds \<Longrightarrow> declares W ks fld \<Longrightarrow> declares (base_model flds) (n # ks) fld"
| after: "declares V ks fld \<Longrightarrow> declares (after_validator f V) ks fld"

definition lefts :: "verror list + 'a \<Rightarrow> verror list" where
  "lefts r = (case r of Inl es \<Rightarrow> es | Inr _ \<Rightarrow> [])"

text \<open>
  The field names of the classes of the schema, class by class, in the order of their
  declaration; \<open>decl_index\<close> is the position of a name in its class (the two names that
  two classes share, \<open>name\<close> and \<open>comment\<close>, come first in both).
\<close>

definition class_fields :: "string list list" where
  "class_fields =
     [[''allowed'', ''forbidden''],
      [''product_name'', ''archetype'', ''core_philosophy'', ''tone_guardrails''],
      [''description'', ''consensus_reality''],
      [''name'', ''manifestation'', ''why_fight_it''],
      [''what_is_new'', ''mechanism''],
      [''vision'', ''emotional_payoff''],
      [''from_state'', ''to_state''],
      [''comment'', ''the_world_status_quo'', ''the_enemy'', ''the_change_vehicle'',
       ''the_promised_land'', ''transformation_thesis'', ''proof_points''],
      [''name'', ''role'', ''demographics'', ''product_relation'', ''social_setting''],
      [''central_belief'', ''internal_monologue_style'', ''obsession_topics'', ''affliction'',
       ''aspiration''],
      [''autonomy_level'', ''memory_retention'', ''hallucination_permission''],
      [''comment'', ''base_persona'', ''lore_seed'', ''evolution_parameters''],
      [''slang_whitelist'', ''cultural_references''],
      [''persona_code'', ''pain_points'', ''language_model''],
      [''project_name'', ''version'', ''input_by'', ''timestamp''],
      [''meta'', ''brand_identity_core'', ''strategic_narrative_framework'',
       ''autonomous_character_seed'', ''target_audience_context'']]"

definition decl_index :: "string \<Rightarrow> nat" where
  "decl_index n =
     (case find (\<lambda>names. n \<in> set names) class_fields of
        Some names \<Rightarrow> length (takeWhile (\<lambda>x. x \<noteq> n) names)
      | None \<Rightarrow> 0)"

fun item_before :: "loc_item \<Rightarrow> loc_item \<Rightarrow> bool" where
  "item_before (Key a) (Key b) = (decl_index a < decl_index b)"
| "item_before (Idx i) (Idx j) = (i < j)"
| "item_before _ _ = False"

text \<open>
  One location is before another when, at the first place where they differ, its field
  is declared earlier or its list index is smaller.
\<close>

definition loc_before :: "loc \<Rightarrow> loc \<Rightarrow> bool" where
  "loc_before a b = ((a, b) \<in> lexord {(x, y). item_before x y})"

text \<open>The required string fields declared with \<open>min_length=1\<close>: the model's path, the field.\<close>

definition min_length_fields :: "(string list \<times> string) list" where
  "min_length_fields =
     [([''brand_identity_core''], ''product_name''),
      ([''brand_identity_core''], ''archetype''),
      ([''brand_identity_core''], ''core_philosophy''),
      ([''strategic_narrative_framework'', ''the_world_status_quo''], ''description''),
      ([''strategic_narrative_framework'', ''the_world_status_quo''], ''consensus_reality''),
      ([''strategic_narrative_framework'', ''the_enemy''], ''name''),
      ([''strategic_narrative_framework'', ''the_enemy''], ''manifestation''),
      ([''strategic_narrative_framework'', ''the_enemy''], ''why_fight_it''),
      ([''strategic_narrative_framework'', ''the_change_vehicle''], ''what_is_new''),
      ([''strategic_narrative_framework'', ''the_change_vehicle''], ''mechanism''),
      ([''strategic_narrative_framework'', ''the_promised_land''], ''vision''),
      ([''strategic_narrative_framework'', ''the_promised_land''], ''emotional_payoff''),
      ([''strategic_narrative_framework'', ''transformation_thesis''], ''from_state''),
      ([''strategic_narrative_framework'', ''transformation_thesis''], ''to_state''),
      ([''autonomous_character_seed'', ''base_persona''], ''name''),
      ([''autonomous_character_seed'', ''base_persona''], ''role''),
      ([''autonomous_character_seed'', ''base_persona''], ''demographics''),
      ([''autonomous_character_seed'', ''lore_seed''], ''central_belief''),
      ([''autonomous_character_seed'', ''lore_seed''], ''internal_monologue_style''),
      ([''autonomous_character_seed'', ''lore_seed''], ''affliction''),
      ([''autonomous_character_seed'', ''lore_seed''], ''aspiration''),
      ([''autonomous_character_seed'', ''evolution_parameters''], ''memory_retention''),
      ([''autonomous_character_seed'', ''evolution_parameters''], ''hallucination_permission''),
      ([''target_audience_context''], ''persona_code'')]"

text \<open>The two required \<open>Literal\<close> fields: the model's path, the field, its literals.\<close>

definition literal_fields :: "(string list \<times> string \<times> string list) list" where
  "literal_fields =
     [([''autonomous_character_seed'', ''base_persona''], ''product_relation'',
       [''The Unaware/Novice'', ''The Skeptic'', ''The Stumbler'', ''The Convert'']),
      ([''autonomous_character_seed'', ''evolution_parameters''], ''autonomy_level'',
       [''Low'', ''Medium'', ''High''])]"

text \<open>The required lists of strings, all declared with \<open>min_length=1\<close>.\<close>

definition str_list_fields :: "(string list \<times> string) list" where
  "str_list_fields =
     [([''brand_identity_core'', ''tone_guardrails''], ''allowed''),
      ([''brand_identity_core'', ''tone_guardrails''], ''forbidden''),
      ([''strategic_narrative_framework''], ''proof_points''),
      ([''autonomous_character_seed'', ''lore_seed''], ''obsession_topics''),
      ([''target_audience_context''], ''pain_points''),
      ([''target_audience_context'', ''language_model''], ''slang_whitelist''),
      ([''target_audience_context'', ''language_model''], ''cultural_references'')]"

text \<open>The input of \<open>ToneGuardrails\<close> with two lists of strings.\<close>

definition tone_guardrails_input :: "string list \<Rightarrow> string list \<Rightarrow> json" where
  "tone_guardrails_input allowed forbidden = JObj
     [(''allowed'', JArr (map JStr allowed)),
      (''forbidden'', JArr (map JStr forbidden))]"

section \<open>A sample document\<close>

definition sample_meta :: "string \<Rightarrow> string \<Rightarrow> string \<Rightarrow> json" where
  "sample_meta project_name version input_by = JObj
     [(''project_name'', JStr project_name),
      (''version'', JStr version),
      (''input_by'', JStr input_by),
      (''timestamp'', JStr ''2024-01-01T00:00:00Z'')]"

definition sample_brand :: json where
  "sample_brand = JObj
     [(''product_name'', JStr ''Kopi''),
      (''archetype'', JStr ''Rebel''),
      (''core_philosophy'', JStr ''Honest''),
      (''tone_guardrails'', tone_guardrails_input [''raw''] [''corporate''])]"

definition sample_framework :: json where
  "sample_framework = JObj
     [(''the_world_status_quo'', JObj
         [(''description'', JStr ''d''), (''consensus_reality'', JStr ''c'')]),
      (''the_enemy'', JObj
         [(''name'', JStr ''n''), (''manifestation'', JStr ''m''), (''why_fight_it'', JStr ''w'')]),
      (''the_change_vehicle'', JObj
         [(''what_is_new'', JStr ''x''), (''mechanism'', JStr ''y'')]),
      (''the_promised_land'', JObj
         [(''vision'', JStr ''v''), (''emotional_payoff'', JStr ''e'')]),
      (''transformation_thesis'', JObj
         [(''from_state'', JStr ''a''), (''to_state'', JStr ''b'')]),
      (''proof_points'', JArr [JStr ''Ten thousand users in a month''])]"

definition sample_evolution :: "string \<Rightarrow> string \<Rightarrow> json" where
  "sample_evolution autonomy_level permission = JObj
     [(''autonomy_level'', JStr autonomy_level),
      (''memory_retention'', JStr ''long''),
      (''hallucination_permission'', JStr permission)]"

definition sample_character :: "json \<Rightarrow> json" where
  "sample_character evolution = JObj
     [(''base_persona'', JObj
         [(''name'', JStr ''Raka''), (''role'', JStr ''barista''),
          (''demographics'', JStr ''24, Jakarta''),
          (''product_relation'', JStr ''The Skeptic'')]),
      (''lore_seed'', JObj
         [(''central_belief'', JStr ''b''), (''internal_monologue_style'', JStr ''dry''),
          (''obsession_topics'', JArr [JStr ''coffee'']),
          (''affliction'', JStr ''doubt''), (''aspiration'', JStr ''cafe'')]),
      (''evolution_parameters'', evolution)]"

definition sample_audience :: json where
  "sample_audience = JObj
     [(''persona_code'', JStr ''GENZ_01''),
      (''pain_points'', JArr [JStr ''rent'']),
      (''language_model'', JObj
         [(''slang_whitelist'', JArr [JStr ''gas'']),
          (''cultural_references'', JArr [JStr ''warkop''])])]"

definition sample_input :: "json \<Rightarrow> json \<Rightarrow> json \<Rightarrow> json" where
  "sample_input meta brand evolution = JObj
     [(''meta'', meta),
      (''brand_identity_core'', brand),
      (''strategic_narrative_framework'', sample_framework),
      (''autonomous_character_seed'', sample_character evolution),
      (''target_audience_context'', sample_audience)]"

text \<open>The sample document with another audience, given by its slang.\<close>

definition slang_audience :: "string list \<Rightarrow> json" where
  "slang_audience slang = JObj
     [(''persona_code'', JStr ''GENZ_01''),
      (''pain_points'', JArr [JStr ''rent'']),
      (''language_model'', JObj
         [(''slang_whitelist'', JArr (map JStr slang)),
          (''cultural_references'', JArr [JStr ''warkop''])])]"

definition sample_document :: "json \<Rightarrow> json \<Rightarrow> json" where
  "sample_document tones audience = JObj
     [(''meta'', sample_meta ''Launch'' ''1.0'' ''ops''),
      (''brand_identity_core'', JObj
         [(''product_name'', JStr ''Kopi''),
          (''archetype'', JStr ''Rebel''),
          (''core_philosophy'', JStr ''Honest''),
          (''tone_guardrails'', tones)]),
      (''strategic_narrative_framework'', sample_framework),
      (''autonomous_character_seed'', sample_character (sample_evolution ''High'' ''Limited'')),
      (''target_audience_context'', audience)]"

text \<open>The document of the aggregate example: no \<open>product_name\<close>, a tone in both lists.\<close>

definition sample_bad_brand :: json where
  "sample_bad_brand = JObj
     [(''archetype'', JStr ''Rebel''),
      (''core_philosophy'', JStr ''Honest''),
      (''tone_guardrails'', tone_guardrails_input [''Raw'', ''warm''] [''corporate'', ''raw''])]"

definition sample_env :: "bool \<Rightarrow> env" where
  "sample_env sw =
     \<lparr>nested_strip = sw, fromisoformat_ok = (\<lambda>s. s = ''2024-01-01T00:00:00+00:00'')\<rparr>"

definition fresh_validator :: narrative_validator where
  "fresh_validator = \<lparr>last_report = None\<rparr>"

text \<open>
  The invariant behind the order of a report: every error of a validator lies under the
  location the validator was given, and the errors come in the order of \<open>loc_before\<close>.
\<close>

definition in_order :: "validator \<Rightarrow> bool" where
  "in_order V = (\<forall>p v es. V p v = Inl es \<longrightarrow>
     (\<forall>e\<in>set es. prefix p (eloc e)) \<and> sorted_wrt (\<lambda>a b. loc_before (eloc a) (eloc b)) es)"

section \<open>Recovery of the pillars (process\_narrative.py)\<close>

text \<open>
  The part of \<open>_call_openrouter_for_pillars\<close> that turns the \<open>content\<close> of the response
  into the pillars.  The content is a \<open>dict\<close>, or anything else, of which the code takes
  \<open>str(content)\<close>.  Every error raised there is a \<open>RuntimeError\<close> with its text.

  \<open>json.loads\<close> and \<open>json_repair.loads\<close> are functions of libraries: they are parameters
  (\<open>loads\<close>, \<open>repair\<close>), a failure being \<open>Inl\<close> of the text of the exception.
\<close>

datatype content = DictContent "(string \<times> json) list" | OtherContent string

datatype exn = RuntimeError string

type_synonym parser = "string \<Rightarrow> string + json"

text \<open>The code fences: the first line goes, then a closing fence with the space around.\<close>

definition strip_fences :: "string \<Rightarrow> string" where
  "strip_fences raw =
     (if startswith raw ''```'' then
        (let raw1 = (case str_find raw (CHR 0x0A) of
                       Some first_newline \<Rightarrow> drop (first_newline + 1) raw
                     | None \<Rightarrow> raw)
         in if endswith raw1 ''```'' then strip (take (length raw1 - 3) raw1) else raw1)
      else raw)"

text \<open>
  \<open>re.sub(r',(\s*[}\]])', r'\1', raw)\<close>: a comma is deleted when only white space
  separates it from a closing brace or bracket.  The scan resumes behind the bracket;
  what it skips holds no comma, so deleting comma by comma gives the same text.
\<close>

definition closes :: "string \<Rightarrow> bool" where
  "closes s =
     (case dropWhile isspace s of
        [] \<Rightarrow> False
      | c # _ \<Rightarrow> c = CHR ''}'' \<or> c = CHR '']'')"

fun fix_trailing_commas :: "string \<Rightarrow> string" where
  "fix_trailing_commas [] = []"
| "fix_trailing_commas (c # cs) =
     (if c = CHR '','' \<and> closes cs then fix_trailing_commas cs
      else c # fix_trailing_commas cs)"

definition sanitize :: "string \<Rightarrow> string" where
  "sanitize text = fix_trailing_commas (strip_fences (strip text))"

text \<open>
  \<open>re.search(r"\{[\s\S]*\}", raw)\<close>: from the first opening brace to the last closing
  brace behind it.
\<close>

definition search_object :: "string \<Rightarrow> string option" where
  "search_object raw =
     (let from_brace = dropWhile (\<lambda>c. c \<noteq> CHR ''{'') raw
      in if from_brace \<noteq> [] \<and> CHR ''}'' \<in> set (tl from_brace)
         then Some (rev (dropWhile (\<lambda>c. c \<noteq> CHR ''}'') (rev from_brace)))
         else None)"

definition parse_failure :: "string \<Rightarrow> string \<Rightarrow> exn" where
  "parse_failure first_err repair_err =
     RuntimeError (''Failed to parse/repair JSON from OpenRouter response. Original error: ''
                   @ first_err @ ''; repair error: '' @ repair_err)"

definition parse_or_repair :: "parser \<Rightarrow> parser \<Rightarrow> string \<Rightarrow> exn + json" where
  "parse_or_repair loads repair raw =
     (case loads raw of
        Inr pillars \<Rightarrow> Inr pillars
      | Inl first_err \<Rightarrow>
          (case repair raw of
             Inr pillars \<Rightarrow> Inr pillars
           | Inl repair_err \<Rightarrow>
               (case search_object raw of
                  Some m \<Rightarrow>
                    (case repair m of
                       Inr pillars \<Rightarrow> Inr pillars
                     | Inl _ \<Rightarrow> Inl (parse_failure first_err repair_err))
                | None \<Rightarrow> Inl (parse_failure first_err repair_err))))"

definition required_keys :: "string list" where
  "required_keys = [''pillar2'', ''pillar3'', ''pillar4'']"

definition missing_key :: "string \<Rightarrow> exn" where
  "missing_key key = RuntimeError (''Missing '' @ [CHR 0x27] @ key @ [CHR 0x27] @ '' in pillars response.'')"

definition not_an_object :: exn where
  "not_an_object = RuntimeError ''Parsed pillars response is not a JSON object.''"

definition check_pillars :: "json \<Rightarrow> exn + json" where
  "check_pillars pillars =
     (case pillars of
        JObj kvs \<Rightarrow>
          (case find (\<lambda>key. map_of kvs key = None) required_keys of
             Some key \<Rightarrow> Inl (missing_key key)
           | None \<Rightarrow> Inr pillars)
      | _ \<Rightarrow> Inl not_an_object)"

definition pillars_from_content :: "parser \<Rightarrow> parser \<Rightarrow> content \<Rightarrow> exn + json" where
  "pillars_from_content loads repair c =
     (case (case c of
              DictContent kvs \<Rightarrow> Inr (JObj kvs)
            | OtherContent text \<Rightarrow> parse_or_repair loads repair (sanitize text)) of
        Inl e \<Rightarrow> Inl e
      | Inr pillars \<Rightarrow> check_pillars pillars)"

section \<open>A strict JSON parser\<close>

text \<open>
  A reference strict parser, after \<open>json.loads\<close>: white space is blank, tab,
  line feed and carriage return; a string holds no control character; numbers, the
  three literals and the constants \<open>NaN\<close>, \<open>Infinity\<close>, \<open>-Infinity\<close> are read as the
  library reads them; a later member with the same name replaces the value of the
  earlier one.  An escape \<open>\u\<close> is read up to \<open>00FF\<close>, the alphabet of the model.  The
  text of its failure stands for the text of the \<open>JSONDecodeError\<close>.  The fuel is the
  length of the text: every call reads at least one character.
\<close>

definition json_ws :: "char \<Rightarrow> bool" where
  "json_ws c = (c = CHR '' '' \<or> c = CHR 0x09 \<or> c = CHR 0x0A \<or> c = CHR 0x0D)"

definition skip_ws :: "string \<Rightarrow> string" where
  "skip_ws s = dropWhile json_ws s"

definition is_digit :: "char \<Rightarrow> bool" where
  "is_digit c = (c \<in> set ''0123456789'')"

definition digit_val :: "char \<Rightarrow> nat" where
  "digit_val c = length (takeWhile (\<lambda>x. x \<noteq> c) ''0123456789'')"

definition hex_val :: "char \<Rightarrow> nat option" where
  "hex_val c =
     (if c \<in> set ''0123456789'' then Some (length (takeWhile (\<lambda>x. x \<noteq> c) ''0123456789''))
      else if c \<in> set ''abcdef'' then Some (10 + length (takeWhile (\<lambda>x. x \<noteq> c) ''abcdef''))
      else if c \<in> set ''ABCDEF'' then Some (10 + length (takeWhile (\<lambda>x. x \<noteq> c) ''ABCDEF''))
      else None)"

definition nat_of_digits :: "string \<Rightarrow> nat" where
  "nat_of_digits ds = foldl (\<lambda>n c. 10 * n + digit_val c) 0 ds"

text \<open>The body of a string, behind the opening quote: the string and the rest.\<close>

fun scan_string :: "string \<Rightarrow> (string \<times> string) option" where
  "scan_string [] = None"
| "scan_string (c # cs) =
     (if c = CHR 0x22 then Some ([], cs)
      else if c = CHR 0x5C then
        (case cs of
           [] \<Rightarrow> None
         | e # r \<Rightarrow>
             if e = CHR ''u'' then
               (case r of
                  h1 # h2 # h3 # h4 # r' \<Rightarrow>
                    (case (hex_val h1, hex_val h2, hex_val h3, hex_val h4) of
                       (Some a, Some b, Some c', Some d) \<Rightarrow>
                         if a = 0 \<and> b = 0 then
                           (case scan_string r' of
                              Some (s, rest) \<Rightarrow> Some (char_of (16 * c' + d) # s, rest)
                            | None \<Rightarrow> None)
                         else None
                     | _ \<Rightarrow> None)
                | _ \<Rightarrow> None)
             else
               (case map_of
                       [(CHR 0x22, CHR 0x22), (CHR 0x5C, CHR 0x5C), (CHR ''/'', CHR ''/''),
                        (CHR ''b'', CHR 0x08), (CHR ''f'', CHR 0x0C), (CHR ''n'', CHR 0x0A),
                        (CHR ''r'', CHR 0x0D), (CHR ''t'', CHR 0x09)] e of
                  Some x \<Rightarrow>
                    (case scan_string r of
                       Some (s, rest) \<Rightarrow> Some (x # s, rest)
                     | None \<Rightarrow> None)
                | None \<Rightarrow> None))
      else if (of_char c :: nat) < 32 then None
      else (case scan_string cs of
              Some (s, rest) \<Rightarrow> Some (c # s, rest)
            | None \<Rightarrow> None))"

text \<open>
  A number: \<open>-?(0|[1-9][0-9]*)(\.[0-9]+)?([eE][-+]?[0-9]+)?\<close>; an integer when it has
  neither fraction nor exponent, a float (kept as its lexeme) otherwise.
\<close>

definition scan_int_part :: "string \<Rightarrow> (string \<times> string) option" where
  "scan_int_part s =
     (case s of
        [] \<Rightarrow> None
      | c # cs \<Rightarrow>
          if c = CHR ''0'' then Some ([c], cs)
          else if is_digit c then Some (c # takeWhile is_digit cs, dropWhile is_digit cs)
          else None)"

definition scan_frac :: "string \<Rightarrow> string \<times> string" where
  "scan_frac s =
     (case s of
        [] \<Rightarrow> ([], s)
      | c # cs \<Rightarrow>
          if c = CHR ''.'' \<and> takeWhile is_digit cs \<noteq> []
          then (c # takeWhile is_digit cs, dropWhile is_digit cs)
          else ([], s))"

definition scan_sign :: "string \<Rightarrow> string \<times> string" where
  "scan_sign s =
     (case s of
        [] \<Rightarrow> ([], s)
      | g # r \<Rightarrow> if g = CHR ''+'' \<or> g = CHR ''-'' then ([g], r) else ([], s))"

definition scan_exp :: "string \<Rightarrow> string \<times> string" where
  "scan_exp s =
     (case s of
        [] \<Rightarrow> ([], s)
      | e # cs \<Rightarrow>
          if (e = CHR ''e'' \<or> e = CHR ''E'') \<and> takeWhile is_digit (snd (scan_sign cs)) \<noteq> []
          then (e # fst (scan_sign cs) @ takeWhile is_digit (snd (scan_sign cs)),
                dropWhile is_digit (snd (scan_sign cs)))
          else ([], s))"

definition scan_number :: "string \<Rightarrow> (json \<times> string) option" where
  "scan_number s =
     (let (sign, s1) = (case s of c # cs \<Rightarrow> if c = CHR ''-'' then ([c], cs) else ([], s) | [] \<Rightarrow> ([], s))
      in case scan_int_part s1 of
           None \<Rightarrow> None
         | Some (ds, s2) \<Rightarrow>
             (let (frac, s3) = scan_frac s2; (ex, s4) = scan_exp s3
              in if frac = [] \<and> ex = []
                 then Some (JInt (if sign = [] then int (nat_of_digits ds) else - int (nat_of_digits ds)), s4)
                 else Some (JFloat (sign @ ds @ frac @ ex), s4)))"

definition scan_literal :: "string \<Rightarrow> (json \<times> string) option" where
  "scan_literal s =
     (if startswith s ''null'' then Some (JNull, drop 4 s)
      else if startswith s ''true'' then Some (JBool True, drop 4 s)
      else if startswith s ''false'' then Some (JBool False, drop 5 s)
      else if startswith s ''NaN'' then Some (JFloat ''NaN'', drop 3 s)
      else if startswith s ''Infinity'' then Some (JFloat ''Infinity'', drop 8 s)
      else if startswith s ''-Infinity'' then Some (JFloat ''-Infinity'', drop 9 s)
      else scan_number s)"

text \<open>\<open>d[k] = v\<close> on a \<open>dict\<close> that keeps the order of insertion.\<close>

definition dict_set :: "(string \<times> json) list \<Rightarrow> string \<Rightarrow> json \<Rightarrow> (string \<times> json) list" where
  "dict_set kvs k v =
     (if map_of kvs k = None then kvs @ [(k, v)]
      else map (\<lambda>(k', v'). if k' = k then (k', v) else (k', v')) kvs)"

fun scan_value :: "nat \<Rightarrow> string \<Rightarrow> (json \<times> string) option"
  and scan_members :: "nat \<Rightarrow> (string \<times> json) list \<Rightarrow> string \<Rightarrow> (json \<times> string) option"
  and scan_elements :: "nat \<Rightarrow> json list \<Rightarrow> string \<Rightarrow> (json \<times> string) option"
where
  "scan_value 0 s = None"
| "scan_value (Suc n) s =
     (case s of
        [] \<Rightarrow> None
      | c # cs \<Rightarrow>
          if c = CHR 0x22 then
            (case scan_string cs of Some (str, rest) \<Rightarrow> Some (JStr str, rest) | None \<Rightarrow> None)
          else if c = CHR ''{'' then
            (case skip_ws cs of
               [] \<Rightarrow> None
             | d # rest \<Rightarrow> if d = CHR ''}'' then Some (JObj [], rest) else scan_members n [] (d # rest))
          else if c = CHR ''['' then
            (case skip_ws cs of
               [] \<Rightarrow> None
             | d # rest \<Rightarrow> if d = CHR '']'' then Some (JArr [], rest) else scan_elements n [] (d # rest))
          else scan_literal s)"
| "scan_members 0 acc s = None"
| "scan_members (Suc n) acc s =
     (case s of
        [] \<Rightarrow> None
      | q # cs \<Rightarrow>
          if q \<noteq> CHR 0x22 then None
          else
            (case scan_string cs of
               None \<Rightarrow> None
             | Some (k, r1) \<Rightarrow>
                 (case skip_ws r1 of
                    [] \<Rightarrow> None
                  | colon # r2 \<Rightarrow>
                      if colon \<noteq> CHR '':'' then None
                      else
                        (case scan_value n (skip_ws r2) of
                           None \<Rightarrow> None
                         | Some (v, r3) \<Rightarrow>
                             (case skip_ws r3 of
                                [] \<Rightarrow> None
                              | d # r4 \<Rightarrow>
                                  if d = CHR ''}'' then Some (JObj (dict_set acc k v), r4)
                                  else if d = CHR '','' then scan_members n (dict_set acc k v) (skip_ws r4)
                                  else None)))))"
| "scan_elements 0 acc s = None"
| "scan_elements (Suc n) acc s =
     (case scan_value n s of
        None \<Rightarrow> None
      | Some (v, r1) \<Rightarrow>
          (case skip_ws r1 of
             [] \<Rightarrow> None
           | d # r2 \<Rightarrow>
               if d = CHR '']'' then Some (JArr (acc @ [v]), r2)
               else if d = CHR '','' then scan_elements n (acc @ [v]) (skip_ws r2)
               else None))"

definition json_loads :: parser where
  "json_loads s =
     (case scan_value (Suc (length s)) (skip_ws s) of
        None \<Rightarrow> Inl ''JSONDecodeError''
      | Some (v, rest) \<Rightarrow> if skip_ws rest = [] then Inr v else Inl ''JSONDecodeError'')"

section \<open>The repair library past the recursion bound\<close>

text \<open>
  \<open>json_repair.loads\<close> belongs to a library; the recovery takes it as the parameter
  \<open>repair\<close>.  One part of its behaviour is modelled, the one in which it raises: the text
  nests containers deeper than the interpreter lets a parser recurse.

  The library calls \<open>json.loads\<close> on the text first, and runs its own recursive-descent
  parser when that raises \<open>JSONDecodeError\<close>.  \<open>json.loads\<close> descends one level for each
  container it opens; on a text that begins by opening more than \<open>bound\<close> containers it
  raises \<open>RecursionError\<close>, whose text names the kind of container being decoded, and the
  library lets that error pass.  The library's own parser skips the letters and blanks in
  front of the first bracket and descends in the same way; the text of its
  \<open>RecursionError\<close> ends with the \<open>place\<close> where the interpreter met the bound (nothing,
  \<open> while calling a Python object\<close> or \<open> in comparison\<close>).  \<open>bound\<close> is a depth that
  neither parser reaches.  What the library does with any other text is not modelled:
  \<open>other\<close> stands for it.
\<close>

definition recursion_error :: "string \<Rightarrow> string" where
  "recursion_error place = ''maximum recursion depth exceeded'' @ place"

definition decoding :: "char \<Rightarrow> string" where
  "decoding c =
     '' while decoding a JSON '' @ (if c = CHR ''['' then ''array'' else ''object'') @
     '' from a unicode string''"

text \<open>
  The containers that a text opens before anything else, outermost first: \<open>[\<close> for an
  array, \<open>{\<close> for an object, which is followed by the name of its first member and a colon.
\<close>

fun opened :: "nat \<Rightarrow> string \<Rightarrow> string" where
  "opened 0 s = []"
| "opened (Suc n) s =
     (case skip_ws s of
        [] \<Rightarrow> []
      | c # cs \<Rightarrow>
          if c = CHR ''['' then c # opened n cs
          else if c = CHR ''{'' then
            (case skip_ws cs of
               [] \<Rightarrow> []
             | q # r \<Rightarrow>
                 if q \<noteq> CHR 0x22 then []
                 else
                   (case scan_string r of
                      None \<Rightarrow> []
                    | Some (k, r1) \<Rightarrow>
                        (case skip_ws r1 of
                           [] \<Rightarrow> []
                         | colon # r2 \<Rightarrow> if colon = CHR '':'' then c # opened n r2 else [])))
          else [])"

definition openings :: "string \<Rightarrow> string" where
  "openings s = opened (length s) s"

definition is_letter :: "char \<Rightarrow> bool" where
  "is_letter c = ((65 \<le> (of_char c :: nat) \<and> (of_char c :: nat) \<le> 90) \<or>
                  (97 \<le> (of_char c :: nat) \<and> (of_char c :: nat) \<le> 122))"

definition json_repair_loads :: "nat \<Rightarrow> string \<Rightarrow> parser \<Rightarrow> parser" where
  "json_repair_loads bound place other s =
     (let junk = takeWhile (\<lambda>c. c \<noteq> CHR ''{'' \<and> c \<noteq> CHR ''['') s;
          body = dropWhile (\<lambda>c. c \<noteq> CHR ''{'' \<and> c \<noteq> CHR ''['') s
      in if bound < length (openings s)
         then Inl (recursion_error (decoding (openings s ! bound)))
         else if list_all (\<lambda>c. is_letter c \<or> c = CHR '' '') junk \<and> bound < length (openings body)
         then Inl (recursion_error place)
         else other s)"

text \<open>The text of an object whose only member opens \<open>n\<close> arrays.\<close>

definition deep_object :: "nat \<Rightarrow> string" where
  "deep_object n = ''{\"a\":'' @ replicate n (CHR ''['') @ ''}''"

section \<open>Texts with commas removed\<close>

text \<open>
  \<open>commas_removed s s'\<close>: the text \<open>s'\<close> is \<open>s\<close> without some of the commas that the
  substitution may delete, those which only white space separates from a closing brace
  or bracket.
\<close>

inductive commas_removed :: "string \<Rightarrow> string \<Rightarrow> bool" where
  nil: "commas_removed [] []"
| keep: "commas_removed s s' \<Longrightarrow> commas_removed (c # s) (c # s')"
| drop: "commas_removed s s' \<Longrightarrow> closes s \<Longrightarrow> commas_removed (CHR '','' # s) s'"

text \<open>The keys without a comma that one mapping holds, the other holds as well.\<close>

definition keeps_keys :: "(string \<times> json) list \<Rightarrow> (string \<times> json) list \<Rightarrow> bool" where
  "keeps_keys kvs kvs' =
     (\<forall>key. CHR '','' \<notin> set key \<longrightarrow> map_of kvs key \<noteq> None \<longrightarrow> map_of kvs' key \<noteq> None)"

definition same_shape :: "json \<Rightarrow> json \<Rightarrow> bool" where
  "same_shape v v' = (\<forall>kvs. v = JObj kvs \<longrightarrow> (\<exists>kvs'. v' = JObj kvs' \<and> keeps_keys kvs kvs'))"

text \<open>A character that is neither white space, nor a closing bracket, nor a comma.\<close>

definition token_char :: "char \<Rightarrow> bool" where
  "token_char c = (\<not> isspace c \<and> c \<noteq> CHR ''}'' \<and> c \<noteq> CHR '']'' \<and> c \<noteq> CHR '','')"

text \<open>
  What the proofs about the parser carry through its recursion, for a given fuel: a text
  with commas removed is read like the text itself (\<open>_sim\<close>), and the fuel that the
  length of the text read gives is enough (\<open>_fuel\<close>).
\<close>

definition value_sim :: "nat \<Rightarrow> bool" where
  "value_sim n = (\<forall>s s' v rest. scan_value n s = Some (v, rest) \<longrightarrow> commas_removed s s' \<longrightarrow>
     (\<exists>v' rest'. scan_value n s' = Some (v', rest') \<and> commas_removed rest rest' \<and> same_shape v v'))"

definition members_sim :: "nat \<Rightarrow> bool" where
  "members_sim n = (\<forall>acc acc' s s' v rest. scan_members n acc s = Some (v, rest) \<longrightarrow>
     commas_removed s s' \<longrightarrow> keeps_keys acc acc' \<longrightarrow>
     (\<exists>v' rest'. scan_members n acc' s' = Some (v', rest') \<and> commas_removed rest rest' \<and>
                  same_shape v v'))"

definition elements_sim :: "nat \<Rightarrow> bool" where
  "elements_sim n = (\<forall>acc acc' s s' v rest. scan_elements n acc s = Some (v, rest) \<longrightarrow>
     commas_removed s s' \<longrightarrow>
     (\<exists>v' rest'. scan_elements n acc' s' = Some (v', rest') \<and> commas_removed rest rest'))"

definition value_fuel :: "nat \<Rightarrow> bool" where
  "value_fuel n = (\<forall>s v rest. scan_value n s = Some (v, rest) \<longrightarrow>
     length rest < length s \<and>
     (\<forall>m. length s - length rest \<le> m \<longrightarrow> scan_value m s = Some (v, rest)))"

definition members_fuel :: "nat \<Rightarrow> bool" where
  "members_fuel n = (\<forall>acc s v rest. scan_members n acc s = Some (v, rest) \<longrightarrow>
     length rest < length s \<and>
     (\<forall>m. length s - length rest \<le> m \<longrightarrow> scan_members m acc s = Some (v, rest)))"

definition elements_fuel :: "nat \<Rightarrow> bool" where
  "elements_fuel n = (\<forall>acc s v rest. scan_elements n acc s = Some (v, rest) \<longrightarrow>
     length rest < length s \<and>
     (\<forall>m. length s - length rest \<le> m \<longrightarrow> scan_elements m acc s = Some (v, rest)))"

section \<open>Strings: facts\<close>

lemma str_in_sublist: "str_in sub s = sublist sub s"
  by (induction s) (auto simp: sublist_Cons_right)

lemma sublist_dropWhile:
  assumes "lit \<noteq> []" "\<not> P (hd lit)"
  shows "sublist lit (dropWhile P s) = sublist lit s"
  using assms
proof (induction s)
  case Nil then show ?case by simp
next
  case (Cons c cs)
  then show ?case by (cases lit) (auto simp: sublist_Cons_right)
qed

lemma sublist_strip:
  assumes "lit \<noteq> []" "\<not> isspace (hd lit)" "\<not> isspace (last lit)"
  shows "sublist lit (strip s) = sublist lit s"
proof -
  have "sublist lit (strip s) = sublist (rev lit) (dropWhile isspace (rev (lstrip s)))"
    unfolding strip_def rstrip_def by (metis rev_rev_ident sublist_rev)
  also have "\<dots> = sublist (rev lit) (rev (lstrip s))"
    using assms by (intro sublist_dropWhile) (auto simp: hd_rev)
  also have "\<dots> = sublist lit (lstrip s)" by simp
  also have "\<dots> = sublist lit s" unfolding lstrip_def using assms by (intro sublist_dropWhile) auto
  finally show ?thesis .
qed


section \<open>Aggregation of errors\<close>

lemma collect_Inr: "collect rs = Inr xs \<Longrightarrow> rs = map Inr xs"
  by (induction rs arbitrary: xs) (auto split: sum.splits)

lemma collect_Inr_lefts: "collect rs = Inr xs \<Longrightarrow> concat (map lefts rs) = []"
  by (auto dest!: collect_Inr simp: lefts_def)

lemma collect_Inl: "collect rs = Inl es \<Longrightarrow> es = concat (map lefts rs)"
  by (induction rs arbitrary: es) (auto simp: lefts_def dest: collect_Inr_lefts split: sum.splits)

lemma collect_mem: "Inl es \<in> set rs \<Longrightarrow> \<exists>es'. collect rs = Inl es' \<and> set es \<subseteq> set es'"
  by (induction rs) (auto split: sum.splits)

lemma base_model_field:
  assumes "fld \<in> set flds" "validate_field p (JObj kvs) kvs fld = Inl es"
  shows "\<exists>es'. base_model flds p (JObj kvs) = Inl es' \<and> set es \<subseteq> set es'"
proof -
  have "Inl es \<in> set (map (validate_field p (JObj kvs) kvs) flds)"
    using assms by force
  from collect_mem[OF this] show ?thesis by (auto simp: base_model_def)
qed

lemma after_validator_Inl:
  "V p v = Inl es \<Longrightarrow> after_validator f V p v = Inl es"
  by (simp add: after_validator_def)

lemma declares_collects:
  assumes "declares V ks fld" "get_path v ks = Some (JObj kvs)"
    "validate_field (p @ map Key ks) (JObj kvs) kvs fld = Inl es"
  shows "\<exists>es'. V p v = Inl es' \<and> set es \<subseteq> set es'"
  using assms
proof (induction arbitrary: v p rule: declares.induct)
  case (own fld flds)
  then show ?case using base_model_field by simp
next
  case (sub n pres W flds ks fld)
  from sub.prems(1) obtain kvs0 y where v: "v = JObj kvs0" and y: "map_of kvs0 n = Some y"
    and g: "get_path y ks = Some (JObj kvs)"
    by (auto split: json.splits option.splits)
  from sub.IH[OF g, of "p @ [Key n]"] sub.prems(2)
  obtain es1 where es1: "W (p @ [Key n]) y = Inl es1" "set es \<subseteq> set es1" by auto
  have "validate_field p (JObj kvs0) kvs0 (n, pres, W) = Inl es1"
    using y es1 by (simp add: validate_field_def)
  from base_model_field[OF sub.hyps(1) this] es1(2) v show ?case by auto
next
  case (after V ks fld f)
  then show ?case using after_validator_Inl by blast
qed

section \<open>Order of errors\<close>

lemma in_orderI:
  assumes "\<And>p v es e. V p v = Inl es \<Longrightarrow> e \<in> set es \<Longrightarrow> prefix p (eloc e)"
    and "\<And>p v es. V p v = Inl es \<Longrightarrow> sorted_wrt (\<lambda>a b. loc_before (eloc a) (eloc b)) es"
  shows "in_order V"
  using assms unfolding in_order_def by blast

lemma in_order_str [simp]: "in_order (str_schema sw n)"
  by (auto simp: in_order_def str_schema_def mk_error_def split: json.splits if_splits)

lemma in_order_literal [simp]: "in_order (literal_schema xs)"
  by (auto simp: in_order_def literal_schema_def mk_error_def split: json.splits if_splits)

lemma in_order_nullable [simp]: "in_order V \<Longrightarrow> in_order (nullable V)"
  by (auto simp: in_order_def nullable_def split: if_splits)

lemma in_order_after [simp]: "in_order V \<Longrightarrow> in_order (after_validator f V)"
  unfolding in_order_def after_validator_def mk_error_def
  by (auto split: sum.splits)

lemma loc_before_key:
  "decl_index a < decl_index b \<Longrightarrow> prefix (p @ [Key a]) x \<Longrightarrow> prefix (p @ [Key b]) y \<Longrightarrow> loc_before x y"
  unfolding loc_before_def prefix_def
  by (auto intro: lexord_append_left_rightI)

lemma loc_before_idx:
  "i < j \<Longrightarrow> prefix (p @ [Idx i]) x \<Longrightarrow> prefix (p @ [Idx j]) y \<Longrightarrow> loc_before x y"
  unfolding loc_before_def prefix_def
  by (auto intro: lexord_append_left_rightI)

lemma fields_in_order:
  assumes "\<forall>f\<in>set flds. in_order (snd (snd f))"
    and "sorted_wrt (\<lambda>f g. decl_index (fst f) < decl_index (fst g)) flds"
    and "collect (map (validate_field p v kvs) flds) = Inl es"
  shows "sorted_wrt (\<lambda>a b. loc_before (eloc a) (eloc b)) es \<and>
         (\<forall>e\<in>set es. \<exists>f\<in>set flds. prefix (p @ [Key (fst f)]) (eloc e))"
  using assms
proof (induction flds arbitrary: es)
  case Nil
  then show ?case by simp
next
  case (Cons f fs)
  obtain n pres W where f: "f = (n, pres, W)" by (cases f)
  let ?r = "validate_field p v kvs f"
  have W: "in_order W" using Cons.prems(1) f by simp
  have r: "sorted_wrt (\<lambda>a b. loc_before (eloc a) (eloc b)) (lefts ?r) \<and>
           (\<forall>e\<in>set (lefts ?r). prefix (p @ [Key n]) (eloc e))"
    using W unfolding f validate_field_def lefts_def in_order_def mk_error_def
    by (auto split: option.splits presence.splits sum.splits)
  have later: "\<forall>g\<in>set fs. decl_index n < decl_index (fst g)"
    using Cons.prems(2) f by simp
  show ?case
  proof (cases "collect (map (validate_field p v kvs) fs)")
    case (Inl es2)
    from Cons.IH[OF _ _ Inl] Cons.prems
    have ih: "sorted_wrt (\<lambda>a b. loc_before (eloc a) (eloc b)) es2"
      "\<forall>e\<in>set es2. \<exists>g\<in>set fs. prefix (p @ [Key (fst g)]) (eloc e)" by auto
    have es: "es = lefts ?r @ es2"
      using Cons.prems(3) Inl by (auto simp: lefts_def split: sum.splits)
    have cross: "\<forall>x\<in>set (lefts ?r). \<forall>y\<in>set es2. loc_before (eloc x) (eloc y)"
      using r ih(2) later by (meson loc_before_key)
    show ?thesis unfolding es using r ih cross f
      by (auto simp: sorted_wrt_append)
  next
    case (Inr xs)
    have es: "es = lefts ?r"
      using Cons.prems(3) Inr by (auto simp: lefts_def split: sum.splits)
    show ?thesis unfolding es using r f by auto
  qed
qed

lemma in_order_base_model:
  assumes "\<forall>f\<in>set flds. in_order (snd (snd f))"
    and "sorted_wrt (\<lambda>f g. decl_index (fst f) < decl_index (fst g)) flds"
  shows "in_order (base_model flds)"
proof (rule in_orderI)
  fix p v es e
  assume a: "base_model flds p v = Inl es" "e \<in> set es"
  show "prefix p (eloc e)"
  proof (cases v)
    case (JObj kvs)
    with a have "collect (map (validate_field p v kvs) flds) = Inl es"
      by (auto simp: base_model_def split: sum.splits)
    from fields_in_order[OF assms this] a(2) obtain n where "prefix (p @ [Key n]) (eloc e)" by auto
    then show ?thesis using append_prefixD by blast
  qed (use a in \<open>auto simp: base_model_def mk_error_def\<close>)
next
  fix p v es
  assume a: "base_model flds p v = Inl es"
  show "sorted_wrt (\<lambda>a b. loc_before (eloc a) (eloc b)) es"
  proof (cases v)
    case (JObj kvs)
    with a have "collect (map (validate_field p v kvs) flds) = Inl es"
      by (auto simp: base_model_def split: sum.splits)
    from fields_in_order[OF assms this] show ?thesis by blast
  qed (use a in \<open>auto simp: base_model_def mk_error_def\<close>)
qed

lemma items_in_order:
  assumes "in_order item"
    and "collect (map (\<lambda>(i, x). item (p @ [Idx i]) x) (enumerate k xs)) = Inl es"
  shows "sorted_wrt (\<lambda>a b. loc_before (eloc a) (eloc b)) es \<and>
         (\<forall>e\<in>set es. \<exists>i\<ge>k. prefix (p @ [Idx i]) (eloc e))"
  using assms(2)
proof (induction xs arbitrary: k es)
  case Nil
  then show ?case by simp
next
  case (Cons x xs)
  let ?r = "item (p @ [Idx k]) x"
  have r: "sorted_wrt (\<lambda>a b. loc_before (eloc a) (eloc b)) (lefts ?r) \<and>
           (\<forall>e\<in>set (lefts ?r). prefix (p @ [Idx k]) (eloc e))"
    using assms(1) unfolding lefts_def in_order_def by (auto split: sum.splits)
  show ?case
  proof (cases "collect (map (\<lambda>(i, x). item (p @ [Idx i]) x) (enumerate (Suc k) xs))")
    case (Inl es2)
    from Cons.IH[OF Inl]
    have ih: "sorted_wrt (\<lambda>a b. loc_before (eloc a) (eloc b)) es2"
      "\<forall>e\<in>set es2. \<exists>i\<ge>Suc k. prefix (p @ [Idx i]) (eloc e)" by auto
    have es: "es = lefts ?r @ es2"
      using Cons.prems Inl by (auto simp: lefts_def split: sum.splits)
    have cross: "\<forall>x\<in>set (lefts ?r). \<forall>y\<in>set es2. loc_before (eloc x) (eloc y)"
      using r ih(2) by (meson loc_before_idx Suc_le_lessD)
    have "\<forall>e\<in>set es2. \<exists>i\<ge>k. prefix (p @ [Idx i]) (eloc e)"
      using ih(2) Suc_leD by blast
    then show ?thesis unfolding es using r ih(1) cross
      by (auto simp: sorted_wrt_append)
  next
    case (Inr ys)
    have es: "es = lefts ?r"
      using Cons.prems Inr by (auto simp: lefts_def split: sum.splits)
    show ?thesis unfolding es using r by auto
  qed
qed

lemma in_order_list [simp]:
  assumes "in_order item"
  shows "in_order (list_schema item n)"
proof (rule in_orderI)
  fix p v es e
  assume a: "list_schema item n p v = Inl es" "e \<in> set es"
  show "prefix p (eloc e)"
  proof (cases v)
    case (JArr xs)
    show ?thesis
    proof (cases "collect (map (\<lambda>(i, x). item (p @ [Idx i]) x) (enumerate 0 xs))")
      case (Inl es')
      with a JArr have "es' = es" by (simp add: list_schema_def)
      with items_in_order[OF assms Inl] a(2) obtain i where "prefix (p @ [Idx i]) (eloc e)" by blast
      then show ?thesis using append_prefixD by blast
    next
      case (Inr ys)
      with a JArr show ?thesis by (auto simp: list_schema_def mk_error_def split: if_splits)
    qed
  qed (use a in \<open>auto simp: list_schema_def mk_error_def\<close>)
next
  fix p v es
  assume a: "list_schema item n p v = Inl es"
  show "sorted_wrt (\<lambda>a b. loc_before (eloc a) (eloc b)) es"
  proof (cases v)
    case (JArr xs)
    show ?thesis
    proof (cases "collect (map (\<lambda>(i, x). item (p @ [Idx i]) x) (enumerate 0 xs))")
      case (Inl es')
      with a JArr have "es' = es" by (simp add: list_schema_def)
      with items_in_order[OF assms Inl] show ?thesis by blast
    next
      case (Inr ys)
      with a JArr show ?thesis by (auto simp: list_schema_def mk_error_def split: if_splits)
    qed
  qed (use a in \<open>auto simp: list_schema_def mk_error_def\<close>)
qed

section \<open>The schema keeps the invariant\<close>

lemmas schema_defs = NarrativeGenesisInput_def Meta_def BrandIdentityCore_def ToneGuardrails_def
  StrategicNarrativeFramework_def TheWorld_def TheEnemy_def TheChangeVehicle_def ThePromisedLand_def
  TransformationThesis_def AutonomousCharacterSeed_def BasePersona_def LoreSeed_def
  EvolutionParameters_def TargetAudienceContext_def LanguageModel_def

lemma decl_index_values:
  "decl_index ''allowed'' = 0" "decl_index ''forbidden'' = 1"
  "decl_index ''product_name'' = 0" "decl_index ''archetype'' = 1"
  "decl_index ''core_philosophy'' = 2" "decl_index ''tone_guardrails'' = 3"
  "decl_index ''description'' = 0" "decl_index ''consensus_reality'' = 1"
  "decl_index ''name'' = 0" "decl_index ''manifestation'' = 1" "decl_index ''why_fight_it'' = 2"
  "decl_index ''what_is_new'' = 0" "decl_index ''mechanism'' = 1"
  "decl_index ''vision'' = 0" "decl_index ''emotional_payoff'' = 1"
  "decl_index ''from_state'' = 0" "decl_index ''to_state'' = 1"
  "decl_index ''comment'' = 0" "decl_index ''the_world_status_quo'' = 1"
  "decl_index ''the_enemy'' = 2" "decl_index ''the_change_vehicle'' = 3"
  "decl_index ''the_promised_land'' = 4" "decl_index ''transformation_thesis'' = 5"
  "decl_index ''proof_points'' = 6"
  "decl_index ''role'' = 1" "decl_index ''demographics'' = 2"
  "decl_index ''product_relation'' = 3" "decl_index ''social_setting'' = 4"
  "decl_index ''central_belief'' = 0" "decl_index ''internal_monologue_style'' = 1"
  "decl_index ''obsession_topics'' = 2" "decl_index ''affliction'' = 3"
  "decl_index ''aspiration'' = 4"
  "decl_index ''autonomy_level'' = 0" "decl_index ''memory_retention'' = 1"
  "decl_index ''hallucination_permission'' = 2"
  "decl_index ''base_persona'' = 1" "decl_index ''lore_seed'' = 2"
  "decl_index ''evolution_parameters'' = 3"
  "decl_index ''slang_whitelist'' = 0" "decl_index ''cultural_references'' = 1"
  "decl_index ''persona_code'' = 0" "decl_index ''pain_points'' = 1"
  "decl_index ''language_model'' = 2"
  "decl_index ''project_name'' = 0" "decl_index ''version'' = 1" "decl_index ''input_by'' = 2"
  "decl_index ''timestamp'' = 3"
  "decl_index ''meta'' = 0" "decl_index ''brand_identity_core'' = 1"
  "decl_index ''strategic_narrative_framework'' = 2"
  "decl_index ''autonomous_character_seed'' = 3" "decl_index ''target_audience_context'' = 4"
  by (simp_all add: decl_index_def class_fields_def)

lemma in_order_models:
  "in_order (ToneGuardrails sw)" "in_order (TheWorld sw)" "in_order (TheEnemy sw)"
  "in_order (TheChangeVehicle sw)" "in_order (ThePromisedLand sw)"
  "in_order (TransformationThesis sw)" "in_order (BasePersona sw)" "in_order (LoreSeed sw)"
  "in_order (EvolutionParameters sw)" "in_order (LanguageModel sw)" "in_order (Meta E)"
  unfolding schema_defs hallucination_permission_def
  by (simp_all add: in_order_base_model decl_index_values)

lemma in_order_sections:
  "in_order (BrandIdentityCore sw)" "in_order (StrategicNarrativeFramework sw)"
  "in_order (AutonomousCharacterSeed sw)" "in_order (TargetAudienceContext sw)"
  unfolding BrandIdentityCore_def StrategicNarrativeFramework_def AutonomousCharacterSeed_def
    TargetAudienceContext_def
  by (simp_all add: in_order_base_model decl_index_values in_order_models)

lemma in_order_root: "in_order (NarrativeGenesisInput E)"
  unfolding NarrativeGenesisInput_def
  by (simp add: in_order_base_model decl_index_values in_order_models in_order_sections)

lemma verror_eta [simp]: "mk_error (etype e) (eloc e) (emsg e) (einput e) = e"
  by (simp add: mk_error_def)

lemma report_of_errors:
  assumes "NarrativeGenesisInput E [] d = Inl es" "get_path d ks = Some (JObj kvs)"
  shows "fst (validate_from_dict E self d) = \<lparr>is_valid = False, errors = es, data = None\<rparr>"
proof -
  from assms(2) obtain kvs0 where "d = JObj kvs0"
    by (cases ks; cases d) auto
  with assms(1) show ?thesis by (simp add: validate_from_dict_def Let_def)
qed

lemma report_collects:
  assumes "declares (NarrativeGenesisInput E) ks fld"
    and "get_path d ks = Some (JObj kvs)"
    and "validate_field (map Key ks) (JObj kvs) kvs fld = Inl es"
  shows "\<not> is_valid (fst (validate_from_dict E self d)) \<and>
         set es \<subseteq> set (errors (fst (validate_from_dict E self d)))"
proof -
  from declares_collects[OF assms(1,2), of "[]" es] assms(3)
  obtain es' where es': "NarrativeGenesisInput E [] d = Inl es'" "set es \<subseteq> set es'" by auto
  from report_of_errors[OF es'(1) assms(2)] es'(2) show ?thesis by simp
qed

lemma find_SomeD: "find P xs = Some x \<Longrightarrow> x \<in> set xs \<and> P x"
  by (induction xs) (auto split: if_splits)

lemma declares_sub:
  assumes "find (\<lambda>f. fst f = n) flds = Some (n', pres, W)" "declares W ks fld"
  shows "declares (base_model flds) (n # ks) fld"
proof -
  from find_SomeD[OF assms(1)] have "(n', pres, W) \<in> set flds" "n' = n" by auto
  then show ?thesis using assms(2) declares.sub by blast
qed

lemma declares_own:
  assumes "find (\<lambda>f. fst f = fst fld) flds = Some fld"
  shows "declares (base_model flds) [] fld"
  using find_SomeD[OF assms] by (auto intro: declares.own)

lemma declares_min_length_all:
  "\<forall>(ks, n)\<in>set min_length_fields. declares (NarrativeGenesisInput E) ks
           (n, Required,
            if n = ''hallucination_permission'' then hallucination_permission (nested_strip E)
            else str_schema (nested_strip E) 1)"
  apply (simp add: min_length_fields_def)
  apply (unfold schema_defs)
  apply (intro conjI)
  apply ((rule declares.after | (rule declares_sub, simp) | (rule declares_own, simp))+)
  done

lemma declares_min_length:
  assumes "(ks, n) \<in> set min_length_fields"
  shows "declares (NarrativeGenesisInput E) ks
           (n, Required,
            if n = ''hallucination_permission'' then hallucination_permission (nested_strip E)
            else str_schema (nested_strip E) 1)"
  using declares_min_length_all[of E] assms by blast

section \<open>Claims on the validator\<close>

lemma strs_accepted:
  "collect (map (\<lambda>(i, x). str_schema sw 0 (p @ [Idx i]) x) (enumerate k (map JStr xs))) =
     Inr (map (\<lambda>s. JStr (ingest sw s)) xs)"
  by (induction xs arbitrary: k) (simp_all add: str_schema_def)

lemma str_list_accepted:
  "n \<le> length xs \<Longrightarrow>
   list_schema (str_schema sw 0) n p (JArr (map JStr xs)) = Inr (JArr (map JStr (map (ingest sw) xs)))"
  by (simp add: list_schema_def strs_accepted comp_def)

lemma strs_of_JStr [simp]: "strs_of (JArr (map JStr xs)) = xs"
  by (simp add: strs_of_def str_of_def comp_def)

lemma strs_of_JStr_comp [simp]: "strs_of (JArr (map (JStr \<circ> f) xs)) = map f xs"
  by (simp add: strs_of_def str_of_def comp_def)

lemma tone_fields_accepted:
  assumes "n \<le> length allowed" "m \<le> length forbidden"
  shows "base_model
           [(''allowed'', Required, list_schema (str_schema sw 0) n),
            (''forbidden'', Required, list_schema (str_schema sw 0) m)] p
           (tone_guardrails_input allowed forbidden) =
         Inr (tone_guardrails_input (map (ingest sw) allowed) (map (ingest sw) forbidden))"
  using assms
  by (simp add: base_model_def tone_guardrails_input_def validate_field_def str_list_accepted)

lemma overlap_nonempty:
  "(set (map lower A) \<inter> set (map lower F) \<noteq> {}) = (\<exists>a\<in>set A. \<exists>f\<in>set F. lower a = lower f)"
  by auto

lemma ToneGuardrails_result:
  assumes "allowed \<noteq> []" "forbidden \<noteq> []"
  shows "ToneGuardrails sw p (tone_guardrails_input allowed forbidden) =
     (if \<exists>a\<in>set allowed. \<exists>f\<in>set forbidden. lower (ingest sw a) = lower (ingest sw f)
      then Inl [mk_error value_error p
                  (ValueErrorMsg (ToneOverlap (set (map lower (map (ingest sw) allowed)) \<inter>
                                               set (map lower (map (ingest sw) forbidden)))))
                  (tone_guardrails_input allowed forbidden)]
      else Inr (tone_guardrails_input (map (ingest sw) allowed) (map (ingest sw) forbidden)))"
proof -
  let ?A = "map (ingest sw) allowed" and ?F = "map (ingest sw) forbidden"
  have attrs: "strs_of (attr (tone_guardrails_input ?A ?F) ''allowed'') = ?A"
    "strs_of (attr (tone_guardrails_input ?A ?F) ''forbidden'') = ?F"
    by (simp_all add: attr_def tone_guardrails_input_def)
  have chk: "check_no_overlap (tone_guardrails_input ?A ?F) =
     (if set (map lower ?A) \<inter> set (map lower ?F) \<noteq> {}
      then Inl (ToneOverlap (set (map lower ?A) \<inter> set (map lower ?F)))
      else Inr (tone_guardrails_input ?A ?F))"
    unfolding check_no_overlap_def attrs Let_def ..
  have ov: "(set (map lower ?A) \<inter> set (map lower ?F) \<noteq> {}) =
        (\<exists>a\<in>set allowed. \<exists>f\<in>set forbidden. lower (ingest sw a) = lower (ingest sw f))"
    unfolding overlap_nonempty by simp
  have "ToneGuardrails sw p (tone_guardrails_input allowed forbidden) =
      (case check_no_overlap (tone_guardrails_input ?A ?F) of
         Inl e \<Rightarrow> Inl [mk_error value_error p (ValueErrorMsg e) (tone_guardrails_input allowed forbidden)]
       | Inr y \<Rightarrow> Inr y)"
    using assms
    by (simp add: ToneGuardrails_def after_validator_def tone_fields_accepted Suc_le_eq)
  also have "\<dots> = (if set (map lower ?A) \<inter> set (map lower ?F) \<noteq> {}
      then Inl [mk_error value_error p
                  (ValueErrorMsg (ToneOverlap (set (map lower ?A) \<inter> set (map lower ?F))))
                  (tone_guardrails_input allowed forbidden)]
      else Inr (tone_guardrails_input ?A ?F))"
    unfolding chk by (simp del: set_map)
  finally show ?thesis unfolding ov .
qed

lemma declares_tone_guardrails:
  "declares (NarrativeGenesisInput E) [''brand_identity_core'']
     (''tone_guardrails'', Required, ToneGuardrails (nested_strip E))"
  unfolding NarrativeGenesisInput_def BrandIdentityCore_def
  by ((rule declares.after | (rule declares_sub, simp) | (rule declares_own, simp))+)

text \<open>
  C2.  Tone guardrails whose two lists are non-empty lists of strings: when some string
  is, up to case, in both lists (as ingested), validation of the guardrails fails with
  one \<open>value_error\<close> that carries the overlap, and the report of every document that holds
  them is invalid and contains that error; when no string is in both, the guardrails
  are accepted.
\<close>

theorem C2_tone_overlap:
  assumes "allowed \<noteq> []" and "forbidden \<noteq> []"
  shows "((\<exists>a\<in>set allowed. \<exists>f\<in>set forbidden. lower (ingest sw a) = lower (ingest sw f)) \<longrightarrow>
            (\<exists>overlap. overlap \<noteq> {} \<and>
               overlap = {t. \<exists>a\<in>set allowed. \<exists>f\<in>set forbidden.
                             t = lower (ingest sw a) \<and> t = lower (ingest sw f)} \<and>
               ToneGuardrails sw p (tone_guardrails_input allowed forbidden) =
                 Inl [mk_error value_error p (ValueErrorMsg (ToneOverlap overlap))
                        (tone_guardrails_input allowed forbidden)] \<and>
               (sw = nested_strip E \<and> get_path d [''brand_identity_core''] = Some (JObj kvs) \<and>
                map_of kvs ''tone_guardrails'' = Some (tone_guardrails_input allowed forbidden) \<longrightarrow>
                  \<not> is_valid (fst (validate_from_dict E self d)) \<and>
                  mk_error value_error [Key ''brand_identity_core'', Key ''tone_guardrails'']
                    (ValueErrorMsg (ToneOverlap overlap)) (tone_guardrails_input allowed forbidden)
                  \<in> set (errors (fst (validate_from_dict E self d)))))) \<and>
         (\<not> (\<exists>a\<in>set allowed. \<exists>f\<in>set forbidden. lower (ingest sw a) = lower (ingest sw f)) \<longrightarrow>
            ToneGuardrails sw p (tone_guardrails_input allowed forbidden) =
              Inr (tone_guardrails_input (map (ingest sw) allowed) (map (ingest sw) forbidden)))"
proof (intro conjI impI)
  assume ov: "\<exists>a\<in>set allowed. \<exists>f\<in>set forbidden. lower (ingest sw a) = lower (ingest sw f)"
  let ?O = "set (map lower (map (ingest sw) allowed)) \<inter> set (map lower (map (ingest sw) forbidden))"
  let ?t = "tone_guardrails_input allowed forbidden"
  have O: "?O = {t. \<exists>a\<in>set allowed. \<exists>f\<in>set forbidden.
                             t = lower (ingest sw a) \<and> t = lower (ingest sw f)}"
    by auto
  have ne: "?O \<noteq> {}" using ov by auto
  have res: "\<And>q. ToneGuardrails sw q ?t = Inl [mk_error value_error q (ValueErrorMsg (ToneOverlap ?O)) ?t]"
    using ToneGuardrails_result[OF assms, of sw] ov by simp
  have doc: "\<not> is_valid (fst (validate_from_dict E self d)) \<and>
       mk_error value_error [Key ''brand_identity_core'', Key ''tone_guardrails'']
         (ValueErrorMsg (ToneOverlap ?O)) ?t \<in> set (errors (fst (validate_from_dict E self d)))"
    if h: "sw = nested_strip E \<and> get_path d [''brand_identity_core''] = Some (JObj kvs) \<and>
           map_of kvs ''tone_guardrails'' = Some ?t"
  proof -
    have vf: "validate_field (map Key [''brand_identity_core'']) (JObj kvs) kvs
            (''tone_guardrails'', Required, ToneGuardrails (nested_strip E)) =
          Inl [mk_error value_error [Key ''brand_identity_core'', Key ''tone_guardrails'']
                 (ValueErrorMsg (ToneOverlap ?O)) ?t]"
      using h res by (simp add: validate_field_def)
    from report_collects[OF declares_tone_guardrails _ vf, of d self] h show ?thesis by simp
  qed
  show "\<exists>overlap. overlap \<noteq> {} \<and>
               overlap = {t. \<exists>a\<in>set allowed. \<exists>f\<in>set forbidden.
                             t = lower (ingest sw a) \<and> t = lower (ingest sw f)} \<and>
               ToneGuardrails sw p ?t =
                 Inl [mk_error value_error p (ValueErrorMsg (ToneOverlap overlap)) ?t] \<and>
               (sw = nested_strip E \<and> get_path d [''brand_identity_core''] = Some (JObj kvs) \<and>
                map_of kvs ''tone_guardrails'' = Some ?t \<longrightarrow>
                  \<not> is_valid (fst (validate_from_dict E self d)) \<and>
                  mk_error value_error [Key ''brand_identity_core'', Key ''tone_guardrails'']
                    (ValueErrorMsg (ToneOverlap overlap)) ?t
                  \<in> set (errors (fst (validate_from_dict E self d))))"
    apply (rule exI[of _ ?O])
    using ne O res doc by (metis (no_types, lifting))
next
  assume "\<not> (\<exists>a\<in>set allowed. \<exists>f\<in>set forbidden. lower (ingest sw a) = lower (ingest sw f))"
  then show "ToneGuardrails sw p (tone_guardrails_input allowed forbidden) =
              Inr (tone_guardrails_input (map (ingest sw) allowed) (map (ingest sw) forbidden))"
    using ToneGuardrails_result[OF assms, of sw p] by simp
qed

text \<open>
  C4, counterexample.  A document with four violations: a tone that is no string, a tone
  in both lists, an empty slang entry, a slang entry of 51 characters.  The report holds two
  errors: the overlap is not looked for while a tone list is invalid, and \<open>validate_slang\<close>
  stops at the first bad entry.  With the two reported violations repaired, the report
  holds the two other ones.
\<close>

theorem C4_counterexample:
  "errors (fst (validate_from_dict (sample_env False) fresh_validator
      (sample_document
         (JObj [(''allowed'', JArr [JStr ''Raw'', JInt 5]), (''forbidden'', JArr [JStr ''raw''])])
         (slang_audience ['''', replicate 51 (CHR ''a'')])))) =
     [mk_error string_type
        [Key ''brand_identity_core'', Key ''tone_guardrails'', Key ''allowed'', Idx 1] Standard (JInt 5),
      mk_error value_error
        [Key ''target_audience_context'', Key ''language_model'', Key ''slang_whitelist'']
        (ValueErrorMsg SlangEmpty) (JArr [JStr '''', JStr (replicate 51 (CHR ''a''))])] \<and>
   errors (fst (validate_from_dict (sample_env False) fresh_validator
      (sample_document
         (JObj [(''allowed'', JArr [JStr ''Raw'']), (''forbidden'', JArr [JStr ''raw''])])
         (slang_audience [replicate 51 (CHR ''a'')])))) =
     [mk_error value_error
        [Key ''brand_identity_core'', Key ''tone_guardrails'']
        (ValueErrorMsg (ToneOverlap {''raw''}))
        (JObj [(''allowed'', JArr [JStr ''Raw'']), (''forbidden'', JArr [JStr ''raw''])]),
      mk_error value_error
        [Key ''target_audience_context'', Key ''language_model'', Key ''slang_whitelist'']
        (ValueErrorMsg (SlangTooLong (replicate 30 (CHR ''a''))))
        (JArr [JStr (replicate 51 (CHR ''a''))])]"
  by code_simp

lemma first_bad_slang_append:
  "first_bad_slang good = None \<Longrightarrow> first_bad_slang (good @ rest) = first_bad_slang rest"
  by (induction good) (auto split: if_splits)

lemma validate_slang_first:
  assumes "first_bad_slang good = None" "first_bad_slang [bad] = Some e"
  shows "validate_slang (good @ bad # rest) = Inl e"
proof -
  have "first_bad_slang (bad # rest) = Some e"
    using assms(2) by (auto split: if_splits)
  then show ?thesis
    using first_bad_slang_append[OF assms(1), of "bad # rest"] by (simp add: validate_slang_def)
qed

lemma collect_standard:
  assumes "collect rs = Inl es" "\<forall>r\<in>set rs. \<forall>e\<in>set (lefts r). emsg e = Standard"
  shows "\<forall>e\<in>set es. emsg e = Standard"
  using collect_Inl[OF assms(1)] assms(2) by auto

lemma str_list_standard:
  assumes "list_schema (str_schema sw k) n q x = Inl es"
  shows "\<forall>e\<in>set es. emsg e = Standard"
proof (cases x)
  case (JArr xs)
  show ?thesis
  proof (cases "collect (map (\<lambda>(i, x). str_schema sw k (q @ [Idx i]) x) (enumerate 0 xs))")
    case (Inl es')
    have "\<forall>r\<in>set (map (\<lambda>(i, x). str_schema sw k (q @ [Idx i]) x) (enumerate 0 xs)).
            \<forall>e\<in>set (lefts r). emsg e = Standard"
      by (auto simp: lefts_def str_schema_def mk_error_def split: json.splits if_splits)
    from collect_standard[OF Inl this] assms JArr Inl show ?thesis
      by (simp add: list_schema_def)
  next
    case (Inr ys)
    with assms JArr show ?thesis
      by (auto simp: list_schema_def mk_error_def split: if_splits)
  qed
qed (use assms in \<open>auto simp: list_schema_def mk_error_def\<close>)

lemma tone_fields_standard:
  assumes "base_model
             [(''allowed'', Required, list_schema (str_schema sw 0) 1),
              (''forbidden'', Required, list_schema (str_schema sw 0) 1)] p v = Inl es"
  shows "\<forall>e\<in>set es. emsg e = Standard"
proof (cases v)
  case (JObj kvs)
  let ?rs = "map (validate_field p v kvs)
               [(''allowed'', Required, list_schema (str_schema sw 0) 1),
                (''forbidden'', Required, list_schema (str_schema sw 0) 1)]"
  from assms JObj have c: "collect ?rs = Inl es"
    by (auto simp: base_model_def split: sum.splits)
  have "\<forall>e\<in>set (lefts (validate_field p v kvs (n, Required, list_schema (str_schema sw 0) 1))).
          emsg e = Standard" for n
  proof (cases "map_of kvs n")
    case None
    then show ?thesis by (simp add: validate_field_def lefts_def mk_error_def)
  next
    case (Some x)
    show ?thesis
    proof (cases "list_schema (str_schema sw 0) 1 (p @ [Key n]) x")
      case (Inl es')
      from str_list_standard[OF Inl] Some Inl show ?thesis
        by (simp add: validate_field_def lefts_def)
    next
      case (Inr y)
      with Some show ?thesis by (simp add: validate_field_def lefts_def)
    qed
  qed
  then have "\<forall>r\<in>set ?rs. \<forall>e\<in>set (lefts r). emsg e = Standard" by simp
  from collect_standard[OF c this] show ?thesis .
qed (use assms in \<open>auto simp: base_model_def mk_error_def\<close>)

lemma overlap_alone:
  assumes "ToneGuardrails sw p v = Inl es" "e \<in> set es"
    "emsg e = ValueErrorMsg (ToneOverlap overlap)"
  shows "es = [e] \<and> eloc e = p \<and>
         (\<exists>x. base_model
                 [(''allowed'', Required, list_schema (str_schema sw 0) 1),
                  (''forbidden'', Required, list_schema (str_schema sw 0) 1)] p v = Inr x)"
proof (cases "base_model
                 [(''allowed'', Required, list_schema (str_schema sw 0) 1),
                  (''forbidden'', Required, list_schema (str_schema sw 0) 1)] p v")
  case (Inl es')
  with assms(1) have "es = es'" by (simp add: ToneGuardrails_def after_validator_def)
  with tone_fields_standard[OF Inl] assms(2,3) show ?thesis by auto
next
  case (Inr x)
  with assms show ?thesis
    by (auto simp: ToneGuardrails_def after_validator_def mk_error_def split: sum.splits)
qed

text \<open>
  C4, as amended.  Aggregation over the fields: whatever field of whatever model of the
  document is reached, every error that the validation of that field yields (the field
  missing, its value rejected, or the error of its validator) is in the report, and the
  report is invalid.  This holds for all fields at once, so no violation hides another one
  in a different field.  Within one field a validator of the schema gives one error:
  \<open>validate_slang\<close> reports the first bad entry, whatever entries follow it; and the
  overlap of the tones is reported only for two valid lists of tones, as the only error
  of the tone guardrails.
\<close>

theorem C4_all_violations_collected:
  "(declares (NarrativeGenesisInput E) ks fld \<and> get_path d ks = Some (JObj kvs) \<and>
    validate_field (map Key ks) (JObj kvs) kvs fld = Inl es \<longrightarrow>
      \<not> is_valid (fst (validate_from_dict E self d)) \<and>
      data (fst (validate_from_dict E self d)) = None \<and>
      set es \<subseteq> set (errors (fst (validate_from_dict E self d)))) \<and>
   (first_bad_slang good = None \<and> first_bad_slang [bad] = Some slang_error \<longrightarrow>
      validate_slang (good @ bad # rest) = Inl slang_error) \<and>
   (ToneGuardrails sw p v = Inl es' \<and> e \<in> set es' \<and>
    emsg e = ValueErrorMsg (ToneOverlap overlap) \<longrightarrow>
      es' = [e] \<and> eloc e = p \<and>
      (\<exists>x. base_model
              [(''allowed'', Required, list_schema (str_schema sw 0) 1),
               (''forbidden'', Required, list_schema (str_schema sw 0) 1)] p v = Inr x))"
proof (intro conjI impI)
  assume h: "declares (NarrativeGenesisInput E) ks fld \<and> get_path d ks = Some (JObj kvs) \<and>
    validate_field (map Key ks) (JObj kvs) kvs fld = Inl es"
  then have a: "declares (NarrativeGenesisInput E) ks fld" "get_path d ks = Some (JObj kvs)"
    "validate_field (map Key ks) (JObj kvs) kvs fld = Inl es" by simp_all
  from declares_collects[OF a(1,2), of "[]" es] a(3)
  obtain es0 where es0: "NarrativeGenesisInput E [] d = Inl es0" "set es \<subseteq> set es0" by auto
  from report_of_errors[OF es0(1) a(2)] es0(2)
  show "\<not> is_valid (fst (validate_from_dict E self d))"
    and "data (fst (validate_from_dict E self d)) = None"
    and "set es \<subseteq> set (errors (fst (validate_from_dict E self d)))" by simp_all
next
  assume "first_bad_slang good = None \<and> first_bad_slang [bad] = Some slang_error"
  then show "validate_slang (good @ bad # rest) = Inl slang_error"
    using validate_slang_first by blast
next
  assume h: "ToneGuardrails sw p v = Inl es' \<and> e \<in> set es' \<and>
    emsg e = ValueErrorMsg (ToneOverlap overlap)"
  then have "es' = [e] \<and> eloc e = p \<and>
      (\<exists>x. base_model
              [(''allowed'', Required, list_schema (str_schema sw 0) 1),
               (''forbidden'', Required, list_schema (str_schema sw 0) 1)] p v = Inr x)"
    using overlap_alone[of sw p v es' e overlap] by blast
  then show "es' = [e]" and "eloc e = p"
    and "\<exists>x. base_model
              [(''allowed'', Required, list_schema (str_schema sw 0) 1),
               (''forbidden'', Required, list_schema (str_schema sw 0) 1)] p v = Inr x"
    by simp_all
qed

lemma declares_product_name:
  "declares (NarrativeGenesisInput E) [''brand_identity_core'']
     (''product_name'', Required, str_schema (nested_strip E) 1)"
  using declares_min_length[of "[''brand_identity_core'']" "''product_name''" E]
  by (simp add: min_length_fields_def)

lemma declares_autonomy_level:
  "declares (NarrativeGenesisInput E) [''autonomous_character_seed'', ''evolution_parameters'']
     (''autonomy_level'', Required, literal_schema [''Low'', ''Medium'', ''High''])"
  unfolding schema_defs
  by ((rule declares.after | (rule declares_sub, simp) | (rule declares_own, simp))+)

lemmas sample_defs = sample_input_def sample_meta_def sample_brand_def sample_bad_brand_def
  tone_guardrails_input_def sample_framework_def sample_evolution_def sample_character_def
  sample_audience_def sample_env_def fresh_validator_def

lemma sample_bad_errors:
  "fst (validate_from_dict (sample_env False) fresh_validator
     (sample_input (sample_meta ''Launch'' ''1.0'' ''ops'') sample_bad_brand
        (sample_evolution ''Extreme'' ''Limited''))) =
   \<lparr>is_valid = False,
    errors =
      [mk_error missing [Key ''brand_identity_core'', Key ''product_name''] Standard sample_bad_brand,
       mk_error value_error [Key ''brand_identity_core'', Key ''tone_guardrails'']
         (ValueErrorMsg (ToneOverlap {''raw''}))
         (tone_guardrails_input [''Raw'', ''warm''] [''corporate'', ''raw'']),
       mk_error literal_error
         [Key ''autonomous_character_seed'', Key ''evolution_parameters'', Key ''autonomy_level'']
         Standard (JStr ''Extreme'')],
    data = None\<rparr>"
  by code_simp

theorem C4_all_violations_collected_witness:
  "\<not> is_valid (fst (validate_from_dict (sample_env False) fresh_validator
       (sample_input (sample_meta ''Launch'' ''1.0'' ''ops'') sample_bad_brand
          (sample_evolution ''Extreme'' ''Limited'')))) \<and>
   {mk_error missing [Key ''brand_identity_core'', Key ''product_name''] Standard sample_bad_brand,
    mk_error value_error [Key ''brand_identity_core'', Key ''tone_guardrails'']
      (ValueErrorMsg (ToneOverlap {''raw''}))
      (tone_guardrails_input [''Raw'', ''warm''] [''corporate'', ''raw'']),
    mk_error literal_error
      [Key ''autonomous_character_seed'', Key ''evolution_parameters'', Key ''autonomy_level'']
      Standard (JStr ''Extreme'')}
   \<subseteq> set (errors (fst (validate_from_dict (sample_env False) fresh_validator
       (sample_input (sample_meta ''Launch'' ''1.0'' ''ops'') sample_bad_brand
          (sample_evolution ''Extreme'' ''Limited''))))) \<and>
   validate_slang [''gas'', '''', replicate 51 (CHR ''a'')] = Inl SlangEmpty \<and>
   (\<exists>x. base_model
           [(''allowed'', Required, list_schema (str_schema False 0) 1),
            (''forbidden'', Required, list_schema (str_schema False 0) 1)] []
           (tone_guardrails_input [''Raw''] [''raw'']) = Inr x)"
proof -
  let ?E = "sample_env False"
  let ?evo = "sample_evolution ''Extreme'' ''Limited''"
  let ?d = "sample_input (sample_meta ''Launch'' ''1.0'' ''ops'') sample_bad_brand ?evo"
  let ?tones = "tone_guardrails_input [''Raw'', ''warm''] [''corporate'', ''raw'']"
  let ?bkvs = "[(''archetype'', JStr ''Rebel''), (''core_philosophy'', JStr ''Honest''),
                (''tone_guardrails'', ?tones)]"
  let ?ekvs = "[(''autonomy_level'', JStr ''Extreme''), (''memory_retention'', JStr ''long''),
                (''hallucination_permission'', JStr ''Limited'')]"
  let ?o = "mk_error value_error [] (ValueErrorMsg (ToneOverlap {''raw''}))
              (tone_guardrails_input [''Raw''] [''raw''])"
  have sw: "nested_strip ?E = False" by (simp add: sample_env_def)
  have b: "get_path ?d [''brand_identity_core''] = Some (JObj ?bkvs)"
    by (simp add: sample_input_def sample_bad_brand_def)
  have e: "get_path ?d [''autonomous_character_seed'', ''evolution_parameters''] = Some (JObj ?ekvs)"
    by (simp add: sample_input_def sample_character_def sample_evolution_def)
  have v1: "validate_field (map Key [''brand_identity_core'']) (JObj ?bkvs) ?bkvs
              (''product_name'', Required, str_schema (nested_strip ?E) 1) =
            Inl [mk_error missing [Key ''brand_identity_core'', Key ''product_name''] Standard
                   sample_bad_brand]"
    by (simp add: validate_field_def sample_bad_brand_def)
  have v2: "validate_field (map Key [''brand_identity_core'']) (JObj ?bkvs) ?bkvs
              (''tone_guardrails'', Required, ToneGuardrails (nested_strip ?E)) =
            Inl [mk_error value_error [Key ''brand_identity_core'', Key ''tone_guardrails'']
                   (ValueErrorMsg (ToneOverlap {''raw''})) ?tones]"
    by code_simp
  have v3: "validate_field (map Key [''autonomous_character_seed'', ''evolution_parameters''])
              (JObj ?ekvs) ?ekvs
              (''autonomy_level'', Required, literal_schema [''Low'', ''Medium'', ''High'']) =
            Inl [mk_error literal_error
                   [Key ''autonomous_character_seed'', Key ''evolution_parameters'',
                    Key ''autonomy_level''] Standard (JStr ''Extreme'')]"
    by (simp add: validate_field_def literal_schema_def)
  have s: "first_bad_slang [''gas''] = None" "first_bad_slang [''''] = Some SlangEmpty"
    by code_simp+
  have o: "ToneGuardrails False [] (tone_guardrails_input [''Raw''] [''raw'']) = Inl [?o]"
    by code_simp
  have om: "?o \<in> set [?o]" "emsg ?o = ValueErrorMsg (ToneOverlap {''raw''})"
    by (simp_all add: mk_error_def)
  note t = C4_all_violations_collected[where E = ?E and self = fresh_validator and d = ?d]
  have h1: "declares (NarrativeGenesisInput ?E) [''brand_identity_core'']
              (''product_name'', Required, str_schema (nested_strip ?E) 1) \<and>
            get_path ?d [''brand_identity_core''] = Some (JObj ?bkvs) \<and>
            validate_field (map Key [''brand_identity_core'']) (JObj ?bkvs) ?bkvs
              (''product_name'', Required, str_schema (nested_strip ?E) 1) =
            Inl [mk_error missing [Key ''brand_identity_core'', Key ''product_name''] Standard
                   sample_bad_brand]"
    by (intro conjI declares_product_name b v1)
  have h2: "declares (NarrativeGenesisInput ?E) [''brand_identity_core'']
              (''tone_guardrails'', Required, ToneGuardrails (nested_strip ?E)) \<and>
            get_path ?d [''brand_identity_core''] = Some (JObj ?bkvs) \<and>
            validate_field (map Key [''brand_identity_core'']) (JObj ?bkvs) ?bkvs
              (''tone_guardrails'', Required, ToneGuardrails (nested_strip ?E)) =
            Inl [mk_error value_error [Key ''brand_identity_core'', Key ''tone_guardrails'']
                   (ValueErrorMsg (ToneOverlap {''raw''})) ?tones]"
    by (intro conjI declares_tone_guardrails b v2)
  have h3: "declares (NarrativeGenesisInput ?E)
              [''autonomous_character_seed'', ''evolution_parameters'']
              (''autonomy_level'', Required, literal_schema [''Low'', ''Medium'', ''High'']) \<and>
            get_path ?d [''autonomous_character_seed'', ''evolution_parameters''] =
              Some (JObj ?ekvs) \<and>
            validate_field (map Key [''autonomous_character_seed'', ''evolution_parameters''])
              (JObj ?ekvs) ?ekvs
              (''autonomy_level'', Required, literal_schema [''Low'', ''Medium'', ''High'']) =
            Inl [mk_error literal_error
                   [Key ''autonomous_character_seed'', Key ''evolution_parameters'',
                    Key ''autonomy_level''] Standard (JStr ''Extreme'')]"
    by (intro conjI declares_autonomy_level e v3)
  have h4: "first_bad_slang [''gas''] = None \<and> first_bad_slang [''''] = Some SlangEmpty"
    by (intro conjI s)
  have h5: "ToneGuardrails False [] (tone_guardrails_input [''Raw''] [''raw'']) = Inl [?o] \<and>
            ?o \<in> set [?o] \<and> emsg ?o = ValueErrorMsg (ToneOverlap {''raw''})"
    by (intro conjI o om)
  from t[THEN conjunct1, THEN mp, OF h1]
  have 1: "\<not> is_valid (fst (validate_from_dict ?E fresh_validator ?d))"
    "mk_error missing [Key ''brand_identity_core'', Key ''product_name''] Standard sample_bad_brand
       \<in> set (errors (fst (validate_from_dict ?E fresh_validator ?d)))"
    by simp_all
  from t[THEN conjunct1, THEN mp, OF h2]
  have 2: "mk_error value_error [Key ''brand_identity_core'', Key ''tone_guardrails'']
             (ValueErrorMsg (ToneOverlap {''raw''})) ?tones
       \<in> set (errors (fst (validate_from_dict ?E fresh_validator ?d)))"
    by simp
  from t[THEN conjunct1, THEN mp, OF h3]
  have 3: "mk_error literal_error
             [Key ''autonomous_character_seed'', Key ''evolution_parameters'', Key ''autonomy_level'']
             Standard (JStr ''Extreme'')
       \<in> set (errors (fst (validate_from_dict ?E fresh_validator ?d)))"
    by simp
  from t[THEN conjunct2, THEN conjunct1, THEN mp, OF h4, of "[replicate 51 (CHR ''a'')]"]
  have 4: "validate_slang [''gas'', '''', replicate 51 (CHR ''a'')] = Inl SlangEmpty"
    by simp
  from t[THEN conjunct2, THEN conjunct2, THEN mp, OF h5]
  have 5: "\<exists>x. base_model
           [(''allowed'', Required, list_schema (str_schema False 0) 1),
            (''forbidden'', Required, list_schema (str_schema False 0) 1)] []
           (tone_guardrails_input [''Raw''] [''raw'']) = Inr x"
    by blast
  from 1 2 3 4 5 show ?thesis by simp
qed

lemma validate_hallucination_iff:
  "(\<exists>x. validate_hallucination v = Inr x) =
   (sublist ''Allowed'' v \<or> sublist ''Not Allowed'' v \<or> sublist ''Limited'' v)"
  by (auto simp: validate_hallucination_def valid_values_def str_in_sublist)

lemma hallucination_permission_accepts:
  "(\<exists>x. hallucination_permission sw p (JStr s) = Inr x) =
   (ingest sw s \<noteq> [] \<and> (\<exists>x. validate_hallucination (ingest sw s) = Inr x))"
  by (auto simp: hallucination_permission_def after_validator_def str_schema_def on_str_def
      str_of_def Suc_le_eq split: sum.splits)

lemma sublist_ingest:
  assumes "lit \<noteq> []" "\<not> isspace (hd lit)" "\<not> isspace (last lit)"
  shows "sublist lit (ingest sw s) = sublist lit s"
  using sublist_strip[OF assms] by (simp add: ingest_def)

lemma literal_ends:
  "\<not> isspace (CHR ''A'')" "\<not> isspace (CHR ''d'')" "\<not> isspace (CHR ''N'')" "\<not> isspace (CHR ''L'')"
  by (simp_all add: isspace_def)

lemma declares_hallucination_permission:
  "declares (NarrativeGenesisInput E) [''autonomous_character_seed'', ''evolution_parameters'']
     (''hallucination_permission'', Required, hallucination_permission (nested_strip E))"
  using declares_min_length[of "[''autonomous_character_seed'', ''evolution_parameters'']"
      "''hallucination_permission''" E]
  by (simp add: min_length_fields_def)

lemma hallucination_permission_iff:
  assumes "s \<noteq> []"
  shows "(\<exists>x. hallucination_permission sw p (JStr s) = Inr x) =
         (sublist ''Allowed'' s \<or> sublist ''Not Allowed'' s \<or> sublist ''Limited'' s)"
proof -
  have lits: "sublist ''Allowed'' (ingest sw s) = sublist ''Allowed'' s"
    "sublist ''Not Allowed'' (ingest sw s) = sublist ''Not Allowed'' s"
    "sublist ''Limited'' (ingest sw s) = sublist ''Limited'' s"
    by (rule sublist_ingest; simp add: literal_ends)+
  have "ingest sw s \<noteq> []" if "sublist lit (ingest sw s)" "lit \<noteq> []" for lit
    using that by auto
  then show ?thesis
    unfolding hallucination_permission_accepts validate_hallucination_iff lits[symmetric]
    by (metis list.distinct(1))
qed

lemma hallucination_permission_errors:
  assumes "hallucination_permission sw p (JStr s) = Inl es"
  shows "es \<noteq> [] \<and> (\<forall>e\<in>set es. eloc e = p)"
proof (cases "str_schema sw 1 p (JStr s)")
  case (Inl es')
  with assms have "es = es'" by (simp add: hallucination_permission_def after_validator_def)
  with Inl show ?thesis by (auto simp: str_schema_def mk_error_def split: if_splits)
next
  case (Inr x)
  with assms show ?thesis
    by (cases "on_str validate_hallucination x")
       (auto simp: hallucination_permission_def after_validator_def mk_error_def)
qed

text \<open>
  C5.  A non-empty string is accepted as \<open>hallucination_permission\<close> exactly when it
  contains one of the literals \<open>Allowed\<close>, \<open>Not Allowed\<close>, \<open>Limited\<close>; a document that
  holds a non-empty string with none of them in that field is invalid, with an error at
  the location of the field.
\<close>

theorem C5_hallucination_permission_substring:
  assumes "s \<noteq> []"
  shows "(\<exists>x. hallucination_permission sw p (JStr s) = Inr x) =
           (sublist ''Allowed'' s \<or> sublist ''Not Allowed'' s \<or> sublist ''Limited'' s) \<and>
         (\<not> (sublist ''Allowed'' s \<or> sublist ''Not Allowed'' s \<or> sublist ''Limited'' s) \<and>
          get_path d [''autonomous_character_seed'', ''evolution_parameters''] = Some (JObj kvs) \<and>
          map_of kvs ''hallucination_permission'' = Some (JStr s) \<longrightarrow>
            \<not> is_valid (fst (validate_from_dict E self d)) \<and>
            (\<exists>e\<in>set (errors (fst (validate_from_dict E self d))).
               eloc e = [Key ''autonomous_character_seed'', Key ''evolution_parameters'',
                         Key ''hallucination_permission'']))"
proof (intro conjI impI)
  show "(\<exists>x. hallucination_permission sw p (JStr s) = Inr x) =
           (sublist ''Allowed'' s \<or> sublist ''Not Allowed'' s \<or> sublist ''Limited'' s)"
    by (rule hallucination_permission_iff[OF assms])
next
  let ?p = "[Key ''autonomous_character_seed'', Key ''evolution_parameters'',
             Key ''hallucination_permission'']"
  let ?sw = "nested_strip E"
  let ?R = "fst (validate_from_dict E self d)"
  assume h: "\<not> (sublist ''Allowed'' s \<or> sublist ''Not Allowed'' s \<or> sublist ''Limited'' s) \<and>
          get_path d [''autonomous_character_seed'', ''evolution_parameters''] = Some (JObj kvs) \<and>
          map_of kvs ''hallucination_permission'' = Some (JStr s)"
  with hallucination_permission_iff[OF assms, of ?sw ?p]
  have "\<not> (\<exists>x. hallucination_permission ?sw ?p (JStr s) = Inr x)" by simp
  then obtain es where es: "hallucination_permission ?sw ?p (JStr s) = Inl es"
    by (cases "hallucination_permission ?sw ?p (JStr s)") auto
  from hallucination_permission_errors[OF es] obtain e where
    e: "e \<in> set es" "eloc e = ?p" by (cases es) auto
  have vf: "validate_field
              (map Key [''autonomous_character_seed'', ''evolution_parameters'']) (JObj kvs) kvs
              (''hallucination_permission'', Required, hallucination_permission ?sw) = Inl es"
    using h es by (simp add: validate_field_def)
  have g: "get_path d [''autonomous_character_seed'', ''evolution_parameters''] = Some (JObj kvs)"
    using h by simp
  from report_collects[OF declares_hallucination_permission g vf, of self]
  have r: "\<not> is_valid ?R" "set es \<subseteq> set (errors ?R)" by simp_all
  from r(1) show "\<not> is_valid ?R" .
  from r(2) e show "\<exists>e\<in>set (errors ?R). eloc e = ?p" by blast
qed

theorem C5_hallucination_permission_substring_witness:
  "(\<exists>x. hallucination_permission False [] (JStr ''Allowed, but only for dystopian outcomes'') = Inr x) \<and>
   \<not> (\<exists>x. hallucination_permission False [] (JStr ''Sometimes maybe'') = Inr x) \<and>
   (\<exists>x. hallucination_permission True [] (JStr ''Allowed, but only for dystopian outcomes'') = Inr x) \<and>
   \<not> (\<exists>x. hallucination_permission True [] (JStr ''Sometimes maybe'') = Inr x)"
proof -
  have a: "''Allowed, but only for dystopian outcomes'' \<noteq> []" and b: "''Sometimes maybe'' \<noteq> []"
    by simp_all
  have ya: "sublist ''Allowed'' ''Allowed, but only for dystopian outcomes''"
    by (simp add: sublist_Cons_right)
  have nb: "\<not> sublist ''Allowed'' ''Sometimes maybe''" "\<not> sublist ''Not Allowed'' ''Sometimes maybe''"
    "\<not> sublist ''Limited'' ''Sometimes maybe''"
    by (simp_all add: sublist_Cons_right)
  show ?thesis
    using C5_hallucination_permission_substring[OF a, where sw = False and p = "[]", THEN conjunct1]
      C5_hallucination_permission_substring[OF a, where sw = True and p = "[]", THEN conjunct1]
      C5_hallucination_permission_substring[OF b, where sw = False and p = "[]", THEN conjunct1]
      C5_hallucination_permission_substring[OF b, where sw = True and p = "[]", THEN conjunct1] ya nb
    by simp
qed

lemma not_allowed_allowed: "sublist ''Not Allowed'' v \<Longrightarrow> sublist ''Allowed'' v"
proof -
  assume "sublist ''Not Allowed'' v"
  moreover have "sublist ''Allowed'' ''Not Allowed''" by (simp add: sublist_Cons_right)
  ultimately show ?thesis using sublist_order.order_trans by blast
qed

text \<open>
  C10.  \<open>validate_hallucination\<close> accepts a string exactly when it contains \<open>Allowed\<close> or
  \<open>Limited\<close>: the literal \<open>Not Allowed\<close> adds nothing, since a string that contains it
  contains \<open>Allowed\<close>.  The test is sensitive to case: \<open>allowed\<close> is rejected.
\<close>

theorem C10_two_literals_suffice:
  "(validate_hallucination v = Inr v) = (sublist ''Allowed'' v \<or> sublist ''Limited'' v) \<and>
   (validate_hallucination v = Inl (HallucinationFormat valid_values)) =
     (\<not> (sublist ''Allowed'' v \<or> sublist ''Limited'' v)) \<and>
   (sublist ''Not Allowed'' v \<or> sublist ''Allowed'' v) = sublist ''Allowed'' v \<and>
   list_ex (\<lambda>valid. str_in valid v) valid_values =
     list_ex (\<lambda>valid. str_in valid v) [''Allowed'', ''Limited''] \<and>
   validate_hallucination ''allowed'' = Inl (HallucinationFormat valid_values)"
proof -
  have c: "validate_hallucination ''allowed'' = Inl (HallucinationFormat valid_values)"
    by (simp add: validate_hallucination_def valid_values_def)
  show ?thesis
    using not_allowed_allowed[of v] c
    by (auto simp: validate_hallucination_def valid_values_def str_in_sublist)
qed

theorem C10_two_literals_suffice_witness:
  "validate_hallucination ''Not Allowed'' = Inr ''Not Allowed'' \<and>
   sublist ''Allowed'' ''Not Allowed'' \<and>
   validate_hallucination ''not allowed'' = Inl (HallucinationFormat valid_values)"
proof -
  have a: "sublist ''Allowed'' ''Not Allowed''" by (simp add: sublist_Cons_right)
  have b: "\<not> sublist ''Allowed'' ''not allowed''" "\<not> sublist ''Limited'' ''not allowed''"
    by (simp_all add: sublist_Cons_right)
  show ?thesis
    using C10_two_literals_suffice[of "''Not Allowed''"] C10_two_literals_suffice[of "''not allowed''"] a b
    by simp
qed

theorem C2_tone_overlap_witness:
  "ToneGuardrails False [] (tone_guardrails_input [''Raw'', ''warm''] [''corporate'', ''raw'']) =
     Inl [mk_error value_error [] (ValueErrorMsg (ToneOverlap {''raw''}))
            (tone_guardrails_input [''Raw'', ''warm''] [''corporate'', ''raw''])] \<and>
   \<not> is_valid (fst (validate_from_dict (sample_env False) fresh_validator
       (sample_input (sample_meta ''Launch'' ''1.0'' ''ops'') sample_bad_brand
          (sample_evolution ''High'' ''Limited'')))) \<and>
   ToneGuardrails False [] (tone_guardrails_input [''raw''] [''corporate'']) =
     Inr (tone_guardrails_input [''raw''] [''corporate''])"
proof -
  let ?d = "sample_input (sample_meta ''Launch'' ''1.0'' ''ops'') sample_bad_brand
              (sample_evolution ''High'' ''Limited'')"
  let ?bkvs = "[(''archetype'', JStr ''Rebel''), (''core_philosophy'', JStr ''Honest''),
                (''tone_guardrails'', tone_guardrails_input [''Raw'', ''warm''] [''corporate'', ''raw''])]"
  have low: "lower ''Raw'' = ''raw''" "lower ''warm'' = ''warm''"
    "lower ''corporate'' = ''corporate''" "lower ''raw'' = ''raw''"
    by code_simp+
  have ne: "[''Raw'', ''warm''] \<noteq> []" "[''corporate'', ''raw''] \<noteq> []"
    "[''raw''] \<noteq> []" "[''corporate''] \<noteq> []" by simp_all
  have ov': "{t. (t = ''raw'' \<or> t = ''warm'') \<and> (t = ''corporate'' \<or> t = ''raw'')} = {''raw''}"
    by auto
  have sw: "False = nested_strip (sample_env False)" by (simp add: sample_env_def)
  have g: "get_path ?d [''brand_identity_core''] = Some (JObj ?bkvs)"
    by (simp add: sample_input_def sample_bad_brand_def)
  have m: "map_of ?bkvs ''tone_guardrails'' = Some (tone_guardrails_input [''Raw'', ''warm''] [''corporate'', ''raw''])"
    by simp
  show ?thesis
    using C2_tone_overlap[OF ne(1,2), of False "[]" "sample_env False" ?d ?bkvs fresh_validator]
      C2_tone_overlap[OF ne(3,4), of False "[]" "sample_env False" ?d ?bkvs fresh_validator]
      sw g m
    by (simp add: low ingest_def ov')
qed

text \<open>
  C9.  Validation is a function of its input: the report does not depend on the state of
  the validator, so a second run on the same input (in the state the first run left)
  gives the same report, the same warnings and the same state; and the errors of a
  report come in the order of \<open>loc_before\<close>, the order in which the classes declare
  their fields (list items by index).
\<close>

theorem C9_validation_deterministic:
  "(case validate_from_dict E self d of
      (r1, s1, w1) \<Rightarrow>
        (case validate_from_dict E s1 d of
           (r2, s2, w2) \<Rightarrow> r2 = r1 \<and> w2 = w1 \<and> s2 = s1)) \<and>
   fst (validate_from_dict E self' d) = fst (validate_from_dict E self d) \<and>
   sorted_wrt (\<lambda>a b. loc_before (eloc a) (eloc b)) (errors (fst (validate_from_dict E self d)))"
proof (intro conjI)
  show "case validate_from_dict E self d of
      (r1, s1, w1) \<Rightarrow>
        (case validate_from_dict E s1 d of
           (r2, s2, w2) \<Rightarrow> r2 = r1 \<and> w2 = w1 \<and> s2 = s1)"
    by (auto simp: validate_from_dict_def Let_def split: json.splits sum.splits)
  show "fst (validate_from_dict E self' d) = fst (validate_from_dict E self d)"
    by (auto simp: validate_from_dict_def Let_def split: json.splits sum.splits)
  show "sorted_wrt (\<lambda>a b. loc_before (eloc a) (eloc b)) (errors (fst (validate_from_dict E self d)))"
  proof (cases "NarrativeGenesisInput E [] d")
    case (Inl es)
    with in_order_root[of E] have "sorted_wrt (\<lambda>a b. loc_before (eloc a) (eloc b)) es"
      unfolding in_order_def by blast
    with Inl show ?thesis
      by (auto simp: validate_from_dict_def Let_def split: json.splits)
  next
    case (Inr x)
    then show ?thesis
      by (auto simp: validate_from_dict_def Let_def split: json.splits)
  qed
qed

theorem C9_validation_deterministic_witness:
  "fst (validate_from_dict (sample_env False)
          (fst (snd (validate_from_dict (sample_env False) fresh_validator
             (sample_input (sample_meta ''Launch'' ''1.0'' ''ops'') sample_bad_brand
                (sample_evolution ''Extreme'' ''Limited'')))))
          (sample_input (sample_meta ''Launch'' ''1.0'' ''ops'') sample_bad_brand
             (sample_evolution ''Extreme'' ''Limited''))) =
   fst (validate_from_dict (sample_env False) fresh_validator
          (sample_input (sample_meta ''Launch'' ''1.0'' ''ops'') sample_bad_brand
             (sample_evolution ''Extreme'' ''Limited''))) \<and>
   loc_before [Key ''brand_identity_core'', Key ''product_name'']
              [Key ''brand_identity_core'', Key ''tone_guardrails''] \<and>
   loc_before [Key ''brand_identity_core'', Key ''tone_guardrails'']
              [Key ''autonomous_character_seed'', Key ''evolution_parameters'', Key ''autonomy_level'']"
proof -
  let ?d = "sample_input (sample_meta ''Launch'' ''1.0'' ''ops'') sample_bad_brand
              (sample_evolution ''Extreme'' ''Limited'')"
  from C9_validation_deterministic[where E = "sample_env False" and self = fresh_validator
         and d = ?d and self' = "fst (snd (validate_from_dict (sample_env False) fresh_validator ?d))"]
  show ?thesis unfolding sample_bad_errors by (simp add: mk_error_def)
qed

text \<open>
  C6, counterexample.  A document whose \<open>Meta\<close> fields \<open>project_name\<close>, \<open>version\<close> and
  \<open>input_by\<close> are empty is valid; so is a document whose \<open>product_name\<close> is one blank, the
  library not applying the whitespace setting of the root to the nested models.
\<close>

theorem C6_counterexample:
  "is_valid (fst (validate_from_dict (sample_env False) fresh_validator
      (sample_input (sample_meta '''' '''' '''') sample_brand (sample_evolution ''High'' ''Limited'')))) \<and>
   is_valid (fst (validate_from_dict (sample_env False) fresh_validator
      (sample_input (sample_meta ''Launch'' ''1.0'' ''ops'')
         (JObj [(''product_name'', JStr '' ''),
                (''archetype'', JStr ''Rebel''),
                (''core_philosophy'', JStr ''Honest''),
                (''tone_guardrails'', tone_guardrails_input [''raw''] [''corporate''])])
         (sample_evolution ''High'' ''Limited''))))"
  by code_simp

lemma ingest_empty [simp]: "ingest sw [] = []"
  by (simp add: ingest_def strip_def lstrip_def rstrip_def)

lemma min_length_rejects:
  "str_schema sw 1 q (JStr []) = Inl [mk_error string_too_short q Standard (JStr [])]"
  "hallucination_permission sw q (JStr []) = Inl [mk_error string_too_short q Standard (JStr [])]"
  by (simp_all add: str_schema_def hallucination_permission_def after_validator_def)

lemma literal_rejects:
  "[] \<notin> set lits \<Longrightarrow>
   literal_schema lits q (JStr []) = Inl [mk_error literal_error q Standard (JStr [])]"
  by (simp add: literal_schema_def)

lemma list_rejects:
  assumes "0 < k"
  shows "list_schema item k q (JArr []) = Inl [mk_error too_short q Standard (JArr [])]"
    and "after_validator f (list_schema item k) q (JArr []) =
           Inl [mk_error too_short q Standard (JArr [])]"
  using assms by (simp_all add: list_schema_def after_validator_def)

lemma timestamp_rejects:
  "\<not> iso_ok [] \<Longrightarrow>
   after_validator (on_str (validate_timestamp iso_ok)) (str_schema sw 0) q (JStr []) =
     Inl [mk_error value_error q (ValueErrorMsg (TimestampFormat [])) (JStr [])]"
  by (simp add: after_validator_def str_schema_def on_str_def str_of_def validate_timestamp_def
      str_replace_def)

lemma declares_literal_all:
  "\<forall>(ks, n, lits)\<in>set literal_fields.
     declares (NarrativeGenesisInput E) ks (n, Required, literal_schema lits)"
  apply (simp add: literal_fields_def)
  apply (unfold schema_defs)
  apply (intro conjI)
  apply ((rule declares.after | (rule declares_sub, simp) | (rule declares_own, simp))+)
  done

lemma declares_str_list_all:
  "\<forall>(ks, n)\<in>set str_list_fields. declares (NarrativeGenesisInput E) ks
           (n, Required,
            if n = ''slang_whitelist''
            then after_validator (on_strs validate_slang)
                   (list_schema (str_schema (nested_strip E) 0) 1)
            else list_schema (str_schema (nested_strip E) 0) 1)"
  apply (simp add: str_list_fields_def)
  apply (unfold schema_defs)
  apply (intro conjI)
  apply ((rule declares.after | (rule declares_sub, simp) | (rule declares_own, simp))+)
  done

lemma declares_timestamp:
  "declares (NarrativeGenesisInput E) [''meta'']
     (''timestamp'', Required,
      after_validator (on_str (validate_timestamp (fromisoformat_ok E)))
        (str_schema (nested_strip E) 0))"
  unfolding schema_defs
  by ((rule declares.after | (rule declares_sub, simp) | (rule declares_own, simp))+)

lemma Meta_accepts:
  assumes "fromisoformat_ok E (str_replace (ingest (nested_strip E) t) (CHR ''Z'') ''+00:00'')"
  shows "Meta E p (JObj [(''project_name'', JStr a), (''version'', JStr b), (''input_by'', JStr c),
                        (''timestamp'', JStr t)]) =
         Inr (JObj [(''project_name'', JStr (ingest (nested_strip E) a)),
                    (''version'', JStr (ingest (nested_strip E) b)),
                    (''input_by'', JStr (ingest (nested_strip E) c)),
                    (''timestamp'', JStr (ingest (nested_strip E) t))])"
  using assms
  by (simp add: Meta_def base_model_def validate_field_def str_schema_def after_validator_def
      on_str_def str_of_def validate_timestamp_def)

text \<open>
  C6, as amended.  Every required string-bearing leaf field other than the fields
  \<open>project_name\<close>, \<open>version\<close> and \<open>input_by\<close> of \<open>Meta\<close> rejects an empty value, with an
  error at its location that makes the report invalid: the empty string is rejected by the
  string fields declared with \<open>min_length=1\<close> (the fields of \<open>min_length_fields\<close>,
  \<open>string_too_short\<close>), by the two \<open>Literal\<close> fields (\<open>literal_error\<close>) and by
  \<open>timestamp\<close> (the error of its validator, \<open>datetime.fromisoformat\<close> rejecting the empty
  string); the empty list is rejected by the lists of strings (\<open>too_short\<close>).  The fields
  \<open>project_name\<close>, \<open>version\<close> and \<open>input_by\<close> of \<open>Meta\<close> declare no minimum length and
  accept every string, the empty one too.
\<close>

theorem C6_required_fields_reject_empty:
  "(get_path d ks = Some (JObj kvs) \<and> (ks, n) \<in> set min_length_fields \<and>
    map_of kvs n = Some (JStr []) \<longrightarrow>
      \<not> is_valid (fst (validate_from_dict E self d)) \<and>
      mk_error string_too_short (map Key ks @ [Key n]) Standard (JStr [])
        \<in> set (errors (fst (validate_from_dict E self d)))) \<and>
   (get_path d ks = Some (JObj kvs) \<and> (ks, n, lits) \<in> set literal_fields \<and>
    map_of kvs n = Some (JStr []) \<longrightarrow>
      \<not> is_valid (fst (validate_from_dict E self d)) \<and>
      mk_error literal_error (map Key ks @ [Key n]) Standard (JStr [])
        \<in> set (errors (fst (validate_from_dict E self d)))) \<and>
   (get_path d ks = Some (JObj kvs) \<and> (ks, n) \<in> set str_list_fields \<and>
    map_of kvs n = Some (JArr []) \<longrightarrow>
      \<not> is_valid (fst (validate_from_dict E self d)) \<and>
      mk_error too_short (map Key ks @ [Key n]) Standard (JArr [])
        \<in> set (errors (fst (validate_from_dict E self d)))) \<and>
   (get_path d [''meta''] = Some (JObj kvs) \<and> map_of kvs ''timestamp'' = Some (JStr []) \<and>
    \<not> fromisoformat_ok E [] \<longrightarrow>
      \<not> is_valid (fst (validate_from_dict E self d)) \<and>
      mk_error value_error [Key ''meta'', Key ''timestamp''] (ValueErrorMsg (TimestampFormat []))
        (JStr [])
        \<in> set (errors (fst (validate_from_dict E self d)))) \<and>
   (fromisoformat_ok E (str_replace (ingest (nested_strip E) t) (CHR ''Z'') ''+00:00'') \<longrightarrow>
      Meta E p (JObj [(''project_name'', JStr a), (''version'', JStr b), (''input_by'', JStr c),
                      (''timestamp'', JStr t)]) =
      Inr (JObj [(''project_name'', JStr (ingest (nested_strip E) a)),
                 (''version'', JStr (ingest (nested_strip E) b)),
                 (''input_by'', JStr (ingest (nested_strip E) c)),
                 (''timestamp'', JStr (ingest (nested_strip E) t))]))"
proof (intro conjI impI)
  assume h: "get_path d ks = Some (JObj kvs) \<and> (ks, n) \<in> set min_length_fields \<and>
    map_of kvs n = Some (JStr [])"
  let ?W = "if n = ''hallucination_permission'' then hallucination_permission (nested_strip E)
            else str_schema (nested_strip E) 1"
  let ?e = "mk_error string_too_short (map Key ks @ [Key n]) Standard (JStr [])"
  have dec: "declares (NarrativeGenesisInput E) ks (n, Required, ?W)"
    using declares_min_length h by blast
  have "?W (map Key ks @ [Key n]) (JStr []) = Inl [?e]"
    using min_length_rejects[of "nested_strip E"] by simp
  then have vf: "validate_field (map Key ks) (JObj kvs) kvs (n, Required, ?W) = Inl [?e]"
    using h by (simp add: validate_field_def)
  from report_collects[OF dec _ vf, of d self] h
  show "\<not> is_valid (fst (validate_from_dict E self d))"
    and "?e \<in> set (errors (fst (validate_from_dict E self d)))" by simp_all
next
  assume h: "get_path d ks = Some (JObj kvs) \<and> (ks, n, lits) \<in> set literal_fields \<and>
    map_of kvs n = Some (JStr [])"
  let ?e = "mk_error literal_error (map Key ks @ [Key n]) Standard (JStr [])"
  have dec: "declares (NarrativeGenesisInput E) ks (n, Required, literal_schema lits)"
    using declares_literal_all[of E] h by blast
  have "[] \<notin> set lits" using h by (auto simp: literal_fields_def)
  from literal_rejects[OF this]
  have vf: "validate_field (map Key ks) (JObj kvs) kvs (n, Required, literal_schema lits) = Inl [?e]"
    using h by (simp add: validate_field_def)
  from report_collects[OF dec _ vf, of d self] h
  show "\<not> is_valid (fst (validate_from_dict E self d))"
    and "?e \<in> set (errors (fst (validate_from_dict E self d)))" by simp_all
next
  assume h: "get_path d ks = Some (JObj kvs) \<and> (ks, n) \<in> set str_list_fields \<and>
    map_of kvs n = Some (JArr [])"
  let ?W = "if n = ''slang_whitelist''
            then after_validator (on_strs validate_slang)
                   (list_schema (str_schema (nested_strip E) 0) 1)
            else list_schema (str_schema (nested_strip E) 0) 1"
  let ?e = "mk_error too_short (map Key ks @ [Key n]) Standard (JArr [])"
  have dec: "declares (NarrativeGenesisInput E) ks (n, Required, ?W)"
    using declares_str_list_all[of E] h by blast
  have "?W (map Key ks @ [Key n]) (JArr []) = Inl [?e]"
    by (simp add: list_rejects)
  then have vf: "validate_field (map Key ks) (JObj kvs) kvs (n, Required, ?W) = Inl [?e]"
    using h by (simp add: validate_field_def)
  from report_collects[OF dec _ vf, of d self] h
  show "\<not> is_valid (fst (validate_from_dict E self d))"
    and "?e \<in> set (errors (fst (validate_from_dict E self d)))" by simp_all
next
  assume h: "get_path d [''meta''] = Some (JObj kvs) \<and> map_of kvs ''timestamp'' = Some (JStr []) \<and>
    \<not> fromisoformat_ok E []"
  let ?W = "after_validator (on_str (validate_timestamp (fromisoformat_ok E)))
              (str_schema (nested_strip E) 0)"
  let ?e = "mk_error value_error [Key ''meta'', Key ''timestamp'']
              (ValueErrorMsg (TimestampFormat [])) (JStr [])"
  from h timestamp_rejects[of "fromisoformat_ok E" "nested_strip E" "[Key ''meta'', Key ''timestamp'']"]
  have vf: "validate_field (map Key [''meta'']) (JObj kvs) kvs (''timestamp'', Required, ?W) = Inl [?e]"
    by (simp add: validate_field_def)
  from report_collects[OF declares_timestamp _ vf, of d self] h
  show "\<not> is_valid (fst (validate_from_dict E self d))"
    and "?e \<in> set (errors (fst (validate_from_dict E self d)))" by simp_all
next
  assume "fromisoformat_ok E (str_replace (ingest (nested_strip E) t) (CHR ''Z'') ''+00:00'')"
  from Meta_accepts[OF this] show "Meta E p (JObj [(''project_name'', JStr a), (''version'', JStr b), (''input_by'', JStr c),
                      (''timestamp'', JStr t)]) =
      Inr (JObj [(''project_name'', JStr (ingest (nested_strip E) a)),
                 (''version'', JStr (ingest (nested_strip E) b)),
                 (''input_by'', JStr (ingest (nested_strip E) c)),
                 (''timestamp'', JStr (ingest (nested_strip E) t))])" .
qed

theorem C6_required_fields_reject_empty_witness:
  "mk_error string_too_short [Key ''brand_identity_core'', Key ''product_name''] Standard (JStr '''')
     \<in> set (errors (fst (validate_from_dict (sample_env False) fresh_validator
          (sample_input (sample_meta ''Launch'' ''1.0'' ''ops'')
             (JObj [(''product_name'', JStr '''')]) (sample_evolution ''High'' ''Limited''))))) \<and>
   mk_error literal_error
       [Key ''autonomous_character_seed'', Key ''evolution_parameters'', Key ''autonomy_level'']
       Standard (JStr '''')
     \<in> set (errors (fst (validate_from_dict (sample_env False) fresh_validator
          (sample_input (sample_meta ''Launch'' ''1.0'' ''ops'') sample_brand
             (sample_evolution '''' ''Limited''))))) \<and>
   mk_error too_short [Key ''brand_identity_core'', Key ''tone_guardrails'', Key ''allowed'']
       Standard (JArr [])
     \<in> set (errors (fst (validate_from_dict (sample_env False) fresh_validator
          (sample_document (tone_guardrails_input [] [''corporate'']) sample_audience)))) \<and>
   mk_error value_error [Key ''meta'', Key ''timestamp''] (ValueErrorMsg (TimestampFormat ''''))
       (JStr '''')
     \<in> set (errors (fst (validate_from_dict (sample_env False) fresh_validator
          (sample_input (JObj [(''timestamp'', JStr '''')]) sample_brand
             (sample_evolution ''High'' ''Limited''))))) \<and>
   Meta (sample_env False) [] (sample_meta '''' '''' '''') =
     Inr (sample_meta '''' '''' '''')"
proof -
  let ?E = "sample_env False"
  let ?d1 = "sample_input (sample_meta ''Launch'' ''1.0'' ''ops'')
             (JObj [(''product_name'', JStr '''')]) (sample_evolution ''High'' ''Limited'')"
  let ?d2 = "sample_input (sample_meta ''Launch'' ''1.0'' ''ops'') sample_brand
             (sample_evolution '''' ''Limited'')"
  let ?d3 = "sample_document (tone_guardrails_input [] [''corporate'']) sample_audience"
  let ?d4 = "sample_input (JObj [(''timestamp'', JStr '''')]) sample_brand
             (sample_evolution ''High'' ''Limited'')"
  let ?k2 = "[(''autonomy_level'', JStr ''''), (''memory_retention'', JStr ''long''),
              (''hallucination_permission'', JStr ''Limited'')]"
  let ?k3 = "[(''allowed'', JArr []), (''forbidden'', JArr [JStr ''corporate''])]"
  have m: "([''brand_identity_core''], ''product_name'') \<in> set min_length_fields"
    "([''autonomous_character_seed'', ''evolution_parameters''], ''autonomy_level'',
      [''Low'', ''Medium'', ''High'']) \<in> set literal_fields"
    "([''brand_identity_core'', ''tone_guardrails''], ''allowed'') \<in> set str_list_fields"
    by (simp_all add: min_length_fields_def literal_fields_def str_list_fields_def)
  have g: "get_path ?d1 [''brand_identity_core''] = Some (JObj [(''product_name'', JStr '''')])"
    "get_path ?d2 [''autonomous_character_seed'', ''evolution_parameters''] = Some (JObj ?k2)"
    "get_path ?d3 [''brand_identity_core'', ''tone_guardrails''] = Some (JObj ?k3)"
    "get_path ?d4 [''meta''] = Some (JObj [(''timestamp'', JStr '''')])"
    by (simp_all add: sample_input_def sample_character_def sample_evolution_def
        sample_document_def tone_guardrails_input_def)
  have iso: "\<not> fromisoformat_ok ?E []"
    "fromisoformat_ok ?E
       (str_replace (ingest (nested_strip ?E) ''2024-01-01T00:00:00Z'') (CHR ''Z'') ''+00:00'')"
    by code_simp+
  have ing: "ingest (nested_strip ?E) s = s" for s
    by (simp add: sample_env_def ingest_def)
  note t = C6_required_fields_reject_empty[where E = ?E and self = fresh_validator]
  from t[where d = ?d1 and ks = "[''brand_identity_core'']" and n = "''product_name''"
        and kvs = "[(''product_name'', JStr '''')]", THEN conjunct1] m(1) g(1)
  have 1: "mk_error string_too_short [Key ''brand_identity_core'', Key ''product_name''] Standard
             (JStr '''') \<in> set (errors (fst (validate_from_dict ?E fresh_validator ?d1)))"
    by simp
  from t[where d = ?d2 and ks = "[''autonomous_character_seed'', ''evolution_parameters'']"
        and n = "''autonomy_level''" and lits = "[''Low'', ''Medium'', ''High'']" and kvs = ?k2,
        THEN conjunct2, THEN conjunct1] m(2) g(2)
  have 2: "mk_error literal_error
             [Key ''autonomous_character_seed'', Key ''evolution_parameters'', Key ''autonomy_level'']
             Standard (JStr '''') \<in> set (errors (fst (validate_from_dict ?E fresh_validator ?d2)))"
    by simp
  from t[where d = ?d3 and ks = "[''brand_identity_core'', ''tone_guardrails'']"
        and n = "''allowed''" and kvs = ?k3,
        THEN conjunct2, THEN conjunct2, THEN conjunct1] m(3) g(3)
  have 3: "mk_error too_short [Key ''brand_identity_core'', Key ''tone_guardrails'', Key ''allowed'']
             Standard (JArr []) \<in> set (errors (fst (validate_from_dict ?E fresh_validator ?d3)))"
    by simp
  from t[where d = ?d4 and kvs = "[(''timestamp'', JStr '''')]",
        THEN conjunct2, THEN conjunct2, THEN conjunct2, THEN conjunct1] g(4) iso(1)
  have 4: "mk_error value_error [Key ''meta'', Key ''timestamp'']
             (ValueErrorMsg (TimestampFormat '''')) (JStr '''')
           \<in> set (errors (fst (validate_from_dict ?E fresh_validator ?d4)))"
    by simp
  from t[where t = "''2024-01-01T00:00:00Z''" and a = "''''" and b = "''''" and c = "''''"
        and p = "[]", THEN conjunct2, THEN conjunct2, THEN conjunct2, THEN conjunct2] iso(2)
  have 5: "Meta ?E [] (sample_meta '''' '''' '''') = Inr (sample_meta '''' '''' '''')"
    by (simp add: sample_meta_def ing)
  from 1 2 3 4 5 show ?thesis by simp
qed

section \<open>Recovery: facts\<close>

lemma find_None_iff_all: "(find P xs = None) = (\<forall>x\<in>set xs. \<not> P x)"
  by (induction xs) auto

lemma find_Some_first: "find P xs = Some x \<Longrightarrow> x \<in> set xs \<and> P x"
  by (induction xs) (auto split: if_splits)

lemma check_pillars_Inr:
  "(check_pillars pillars = Inr p) =
   (p = pillars \<and> (\<exists>kvs. pillars = JObj kvs \<and> (\<forall>key\<in>set required_keys. map_of kvs key \<noteq> None)))"
  by (auto simp: check_pillars_def find_None_iff_all dest: find_Some_first
      split: json.splits option.splits)

lemma check_pillars_missing:
  assumes "\<exists>key\<in>set required_keys. map_of kvs key = None"
  shows "\<exists>key\<in>set required_keys. map_of kvs key = None \<and> check_pillars (JObj kvs) = Inl (missing_key key)"
proof (cases "find (\<lambda>key. map_of kvs key = None) required_keys")
  case None
  with assms show ?thesis by (auto simp: find_None_iff_all)
next
  case (Some key)
  from find_Some_first[OF Some] Some show ?thesis by (auto simp: check_pillars_def)
qed

lemma pillars_from_content_unfold:
  "pillars_from_content loads repair (DictContent kvs) = check_pillars (JObj kvs)"
  "parse_or_repair loads repair (sanitize payload) = Inr v \<Longrightarrow>
     pillars_from_content loads repair (OtherContent payload) = check_pillars v"
  "parse_or_repair loads repair (sanitize payload) = Inl e \<Longrightarrow>
     pillars_from_content loads repair (OtherContent payload) = Inl e"
  by (simp_all add: pillars_from_content_def)

text \<open>
  C1.  Recovery succeeds only with a mapping that holds the three keys: whatever stage
  produced the value, the result is the check of that value, which returns the value
  itself when it is a mapping with the three keys, the error \<open>not_an_object\<close> when it is
  no mapping, and the error that names a missing key (the first one missing) otherwise.
\<close>

theorem C1_recovered_value_checked:
  "(pillars_from_content loads repair c = Inr p \<longrightarrow>
      (\<exists>kvs. p = JObj kvs \<and> (\<forall>key\<in>set required_keys. map_of kvs key \<noteq> None))) \<and>
   pillars_from_content loads repair (DictContent kvs) = check_pillars (JObj kvs) \<and>
   (parse_or_repair loads repair (sanitize payload) = Inr v \<longrightarrow>
      pillars_from_content loads repair (OtherContent payload) = check_pillars v) \<and>
   ((\<forall>kvs'. v \<noteq> JObj kvs') \<longrightarrow> check_pillars v = Inl not_an_object) \<and>
   ((\<exists>key\<in>set required_keys. map_of kvs key = None) \<longrightarrow>
      (\<exists>key\<in>set required_keys. map_of kvs key = None \<and>
         check_pillars (JObj kvs) = Inl (missing_key key))) \<and>
   ((\<forall>key\<in>set required_keys. map_of kvs key \<noteq> None) \<longrightarrow>
      check_pillars (JObj kvs) = Inr (JObj kvs))"
proof (intro conjI impI)
  assume "pillars_from_content loads repair c = Inr p"
  then obtain v' where "check_pillars v' = Inr p"
    by (auto simp: pillars_from_content_def split: sum.splits content.splits)
  then show "\<exists>kvs. p = JObj kvs \<and> (\<forall>key\<in>set required_keys. map_of kvs key \<noteq> None)"
    unfolding check_pillars_Inr by auto
next
  assume "\<forall>kvs'. v \<noteq> JObj kvs'"
  then show "check_pillars v = Inl not_an_object"
    by (cases v) (auto simp: check_pillars_def)
qed (use check_pillars_missing check_pillars_Inr pillars_from_content_unfold in auto)

theorem C1_recovered_value_checked_witness:
  "\<forall>repair.
     pillars_from_content json_loads repair (OtherContent ''[1, 2]'') = Inl not_an_object \<and>
     pillars_from_content json_loads repair
       (OtherContent ''{\"pillar2\": {}, \"pillar3\": {}}'') = Inl (missing_key ''pillar4'') \<and>
     pillars_from_content json_loads repair
       (DictContent [(''pillar2'', JObj []), (''pillar3'', JObj []), (''pillar4'', JObj [])]) =
       Inr (JObj [(''pillar2'', JObj []), (''pillar3'', JObj []), (''pillar4'', JObj [])])"
proof
  fix repair :: parser
  let ?full = "[(''pillar2'', JObj []), (''pillar3'', JObj []), (''pillar4'', JObj [])]"
  let ?part = "[(''pillar2'', JObj []), (''pillar3'', JObj [])]"
  have l1: "json_loads (sanitize ''[1, 2]'') = Inr (JArr [JInt 1, JInt 2])"
    by code_simp
  have l2: "json_loads (sanitize ''{\"pillar2\": {}, \"pillar3\": {}}'') = Inr (JObj ?part)"
    by code_simp
  have a: "parse_or_repair json_loads repair (sanitize ''[1, 2]'') = Inr (JArr [JInt 1, JInt 2])"
    by (simp add: parse_or_repair_def l1)
  have b: "parse_or_repair json_loads repair (sanitize ''{\"pillar2\": {}, \"pillar3\": {}}'') =
           Inr (JObj ?part)"
    by (simp add: parse_or_repair_def l2)
  have c: "\<forall>kvs'. JArr [JInt 1, JInt 2] \<noteq> JObj kvs'" by simp
  have d: "\<exists>key\<in>set required_keys. map_of ?part key = None"
    by (simp add: required_keys_def)
  have e: "\<forall>key\<in>set required_keys. map_of ?full key \<noteq> None"
    by (simp add: required_keys_def)
  have f: "\<forall>key\<in>set required_keys. map_of ?part key = None \<longrightarrow> key = ''pillar4''"
    by (simp add: required_keys_def)
  from C1_recovered_value_checked[where loads = json_loads and repair = repair
        and payload = "''[1, 2]''" and v = "JArr [JInt 1, JInt 2]"] a c
  have 1: "pillars_from_content json_loads repair (OtherContent ''[1, 2]'') = Inl not_an_object"
    by simp
  from C1_recovered_value_checked[where loads = json_loads and repair = repair
        and payload = "''{\"pillar2\": {}, \"pillar3\": {}}''" and v = "JObj ?part" and kvs = ?part] b d f
  have 2: "pillars_from_content json_loads repair
     (OtherContent ''{\"pillar2\": {}, \"pillar3\": {}}'') = Inl (missing_key ''pillar4'')"
    by auto
  from C1_recovered_value_checked[where loads = json_loads and repair = repair
        and kvs = ?full] e
  have 3: "pillars_from_content json_loads repair (DictContent ?full) = Inr (JObj ?full)"
    by simp
  from 1 2 3 show "pillars_from_content json_loads repair (OtherContent ''[1, 2]'') = Inl not_an_object \<and>
     pillars_from_content json_loads repair
       (OtherContent ''{\"pillar2\": {}, \"pillar3\": {}}'') = Inl (missing_key ''pillar4'') \<and>
     pillars_from_content json_loads repair
       (DictContent [(''pillar2'', JObj []), (''pillar3'', JObj []), (''pillar4'', JObj [])]) =
       Inr (JObj [(''pillar2'', JObj []), (''pillar3'', JObj []), (''pillar4'', JObj [])])"
    by simp
qed

subsection \<open>A text nested past the recursion bound\<close>

lemma opened_arrays:
  "opened (n + k) (replicate n (CHR ''['') @ r) = replicate n (CHR ''['') @ opened k r"
  by (induction n) (simp_all add: skip_ws_def json_ws_def)

lemma opened_closing [simp]: "opened k (CHR ''}'' # r) = []"
  by (cases k) (simp_all add: skip_ws_def json_ws_def)

lemma opened_letter [simp]: "opened k (CHR ''x'' # r) = []"
  by (cases k) (simp_all add: skip_ws_def json_ws_def)

lemma openings_deep_object: "openings (deep_object n) = CHR ''{'' # replicate n (CHR ''['')"
proof -
  have "opened (Suc (n + 5)) (deep_object n) =
        CHR ''{'' # opened (n + 5) (replicate n (CHR ''['') @ ''}'')"
    unfolding deep_object_def opened.simps by (simp add: skip_ws_def json_ws_def)
  moreover have "length (deep_object n) = Suc (n + 5)" by (simp add: deep_object_def)
  ultimately show ?thesis
    by (simp only: openings_def opened_arrays) simp
qed

lemma openings_arrays: "openings (replicate n (CHR ''['')) = replicate n (CHR ''['')"
  using opened_arrays[of n 0 "[]"] by (simp add: openings_def)

lemma openings_letter: "openings (CHR ''x'' # s) = []"
  by (simp add: openings_def)

lemma repair_deep_object:
  assumes "0 < bound" "bound \<le> n"
  shows "json_repair_loads bound place other (deep_object n) =
         Inl (recursion_error (decoding (CHR ''['')))"
  using assms by (simp add: json_repair_loads_def openings_deep_object Let_def nth_Cons')

lemma repair_letter_deep_object:
  assumes "bound \<le> n"
  shows "json_repair_loads bound place other (CHR ''x'' # deep_object n) =
         Inl (recursion_error place)"
proof -
  have "takeWhile (\<lambda>c. c \<noteq> CHR ''{'' \<and> c \<noteq> CHR ''['') (CHR ''x'' # deep_object n) = ''x''"
    "dropWhile (\<lambda>c. c \<noteq> CHR ''{'' \<and> c \<noteq> CHR ''['') (CHR ''x'' # deep_object n) = deep_object n"
    by (simp_all add: deep_object_def)
  then show ?thesis
    using assms
    by (simp add: json_repair_loads_def openings_letter openings_deep_object Let_def is_letter_def)
qed

lemma repair_letter_arrays:
  assumes "bound < n"
  shows "json_repair_loads bound place other (CHR ''x'' # replicate n (CHR ''['')) =
         Inl (recursion_error place)"
proof -
  obtain m where n: "n = Suc m" using assms by (cases n) auto
  have "takeWhile (\<lambda>c. c \<noteq> CHR ''{'' \<and> c \<noteq> CHR ''['') (CHR ''x'' # replicate n (CHR ''['')) = ''x''"
    "dropWhile (\<lambda>c. c \<noteq> CHR ''{'' \<and> c \<noteq> CHR ''['') (CHR ''x'' # replicate n (CHR ''['')) =
       replicate n (CHR ''['')"
    by (simp_all add: n)
  then show ?thesis
    using assms
    by (simp add: json_repair_loads_def openings_letter openings_arrays Let_def is_letter_def)
qed

lemma fix_no_comma: "CHR '','' \<notin> set s \<Longrightarrow> fix_trailing_commas s = s"
  by (induction s) auto

lemma sanitize_letter_deep_object:
  "sanitize (CHR ''x'' # deep_object n) = CHR ''x'' # deep_object n"
proof -
  let ?P = "CHR ''x'' # deep_object n"
  have "strip ?P = ?P"
    unfolding strip_def lstrip_def rstrip_def
    by (simp add: isspace_def deep_object_def)
  moreover have "\<not> startswith ?P ''```''" by (simp add: startswith_def)
  moreover have "CHR '','' \<notin> set ?P" by (auto simp: deep_object_def)
  ultimately show ?thesis by (simp add: sanitize_def strip_fences_def fix_no_comma)
qed

lemma sanitize_letter_arrays:
  "sanitize (CHR ''x'' # replicate n (CHR ''['')) = CHR ''x'' # replicate n (CHR ''['')"
proof -
  let ?P = "CHR ''x'' # replicate n (CHR ''['')"
  have "dropWhile isspace (replicate n (CHR ''['') @ ''x'') = replicate n (CHR ''['') @ ''x''"
    by (cases n) (simp_all add: isspace_def)
  then have "strip ?P = ?P"
    unfolding strip_def lstrip_def rstrip_def by (simp add: isspace_def)
  moreover have "\<not> startswith ?P ''```''" by (simp add: startswith_def)
  moreover have "CHR '','' \<notin> set ?P" by auto
  ultimately show ?thesis by (simp add: sanitize_def strip_fences_def fix_no_comma)
qed

lemma loads_letter: "json_loads (CHR ''x'' # s) = Inl ''JSONDecodeError''"
  by (simp add: json_loads_def skip_ws_def json_ws_def scan_literal_def startswith_def
      scan_number_def scan_int_part_def is_digit_def)

lemma search_letter_deep_object:
  "search_object (CHR ''x'' # deep_object n) = Some (deep_object n)"
  by (simp add: search_object_def deep_object_def)

lemma search_letter_arrays: "search_object (CHR ''x'' # replicate n (CHR ''['')) = None"
  by (simp add: search_object_def)

text \<open>
  On the text \<open>x\<close> followed by \<open>deep_object n\<close>, nested past the bound, every stage fails:
  the strict parse at the first character, the repair of the whole text in the library's
  own parser, the repair of the span of the object in \<open>json.loads\<close>.  The error raised
  carries the first two failures.
\<close>

lemma exhaustion_past_bound:
  assumes "0 < bound" "bound \<le> n"
  shows "pillars_from_content json_loads (json_repair_loads bound place other)
           (OtherContent (CHR ''x'' # deep_object n)) =
         Inl (parse_failure ''JSONDecodeError'' (recursion_error place))"
  using assms
  by (simp add: pillars_from_content_def parse_or_repair_def sanitize_letter_deep_object
      loads_letter repair_letter_deep_object search_letter_deep_object repair_deep_object)

text \<open>
  C8, counterexample.  The text \<open>x{"a":[[[\<dots>}\<close> with 100000 opening brackets.  The strict
  parse fails; the repair of the whole text fails, with the \<open>RecursionError\<close> of the
  library's parser; the span from the first brace to the last is found, and its repair, the
  last attempt made, fails with the \<open>RecursionError\<close> of \<open>json.loads\<close>.  The error raised
  carries the failure of the repair of the whole text, and the failure of the last attempt
  is not in it, whichever place the first \<open>RecursionError\<close> names.
\<close>

theorem C8_counterexample:
  "json_loads (sanitize (CHR ''x'' # deep_object 100000)) = Inl ''JSONDecodeError'' \<and>
   json_repair_loads 10000 [] json_loads (sanitize (CHR ''x'' # deep_object 100000)) =
     Inl ''maximum recursion depth exceeded'' \<and>
   search_object (sanitize (CHR ''x'' # deep_object 100000)) = Some (deep_object 100000) \<and>
   json_repair_loads 10000 [] json_loads (deep_object 100000) =
     Inl ''maximum recursion depth exceeded while decoding a JSON array from a unicode string'' \<and>
   pillars_from_content json_loads (json_repair_loads 10000 [] json_loads)
       (OtherContent (CHR ''x'' # deep_object 100000)) =
     Inl (RuntimeError
       ''Failed to parse/repair JSON from OpenRouter response. Original error: JSONDecodeError; repair error: maximum recursion depth exceeded'') \<and>
   \<not> sublist ''maximum recursion depth exceeded while decoding a JSON array from a unicode string''
       ''Failed to parse/repair JSON from OpenRouter response. Original error: JSONDecodeError; repair error: maximum recursion depth exceeded'' \<and>
   pillars_from_content json_loads
       (json_repair_loads 10000 '' while calling a Python object'' json_loads)
       (OtherContent (CHR ''x'' # deep_object 100000)) =
     Inl (RuntimeError
       ''Failed to parse/repair JSON from OpenRouter response. Original error: JSONDecodeError; repair error: maximum recursion depth exceeded while calling a Python object'') \<and>
   \<not> sublist ''maximum recursion depth exceeded while decoding a JSON array from a unicode string''
       ''Failed to parse/repair JSON from OpenRouter response. Original error: JSONDecodeError; repair error: maximum recursion depth exceeded while calling a Python object'' \<and>
   pillars_from_content json_loads (json_repair_loads 10000 '' in comparison'' json_loads)
       (OtherContent (CHR ''x'' # deep_object 100000)) =
     Inl (RuntimeError
       ''Failed to parse/repair JSON from OpenRouter response. Original error: JSONDecodeError; repair error: maximum recursion depth exceeded in comparison'') \<and>
   \<not> sublist ''maximum recursion depth exceeded while decoding a JSON array from a unicode string''
       ''Failed to parse/repair JSON from OpenRouter response. Original error: JSONDecodeError; repair error: maximum recursion depth exceeded in comparison''"
proof -
  have b: "(0::nat) < 10000" "(10000::nat) \<le> 100000" by simp_all
  have ns: "\<not> sublist ''maximum recursion depth exceeded while decoding a JSON array from a unicode string''
       ''Failed to parse/repair JSON from OpenRouter response. Original error: JSONDecodeError; repair error: maximum recursion depth exceeded''"
    "\<not> sublist ''maximum recursion depth exceeded while decoding a JSON array from a unicode string''
       ''Failed to parse/repair JSON from OpenRouter response. Original error: JSONDecodeError; repair error: maximum recursion depth exceeded while calling a Python object''"
    "\<not> sublist ''maximum recursion depth exceeded while decoding a JSON array from a unicode string''
       ''Failed to parse/repair JSON from OpenRouter response. Original error: JSONDecodeError; repair error: maximum recursion depth exceeded in comparison''"
    by code_simp+
  show ?thesis
    using ns
    by (simp add: sanitize_letter_deep_object loads_letter search_letter_deep_object
        repair_letter_deep_object[OF b(2)] repair_deep_object[OF b]
        exhaustion_past_bound[OF b] parse_failure_def recursion_error_def decoding_def)
qed

text \<open>
  C8, as amended.  When the strict parse fails, the repair of the whole text fails, and
  the text holds no brace-delimited span or the repair of that span fails as well, one
  \<open>RuntimeError\<close> is raised whose text holds the error of the strict parse and the error
  of the repair of the whole text.
\<close>

theorem C8_exhaustion_reports_first_two_errors:
  assumes "loads (sanitize payload) = Inl first_err"
    and "repair (sanitize payload) = Inl repair_err"
    and "search_object (sanitize payload) = None \<or>
         (\<exists>m sub_err. search_object (sanitize payload) = Some m \<and> repair m = Inl sub_err)"
  shows "pillars_from_content loads repair (OtherContent payload) =
           Inl (parse_failure first_err repair_err) \<and>
         (\<exists>msg. parse_failure first_err repair_err = RuntimeError msg \<and>
                sublist first_err msg \<and> sublist repair_err msg)"
proof -
  have "parse_or_repair loads repair (sanitize payload) = Inl (parse_failure first_err repair_err)"
    using assms by (auto simp: parse_or_repair_def)
  then have "pillars_from_content loads repair (OtherContent payload) =
           Inl (parse_failure first_err repair_err)"
    by (simp add: pillars_from_content_def)
  moreover have "sublist first_err (a @ first_err @ b @ repair_err)"
    "sublist repair_err (a @ first_err @ b @ repair_err)" for a b :: string
    by (metis sublist_appendI append.assoc append_Nil2)+
  ultimately show ?thesis unfolding parse_failure_def by blast
qed

theorem C8_exhaustion_reports_first_two_errors_witness:
  "pillars_from_content json_loads (json_repair_loads 10000 [] json_loads)
     (OtherContent (CHR ''x'' # replicate 100000 (CHR ''[''))) =
     Inl (parse_failure ''JSONDecodeError'' ''maximum recursion depth exceeded'') \<and>
   pillars_from_content json_loads (json_repair_loads 10000 [] json_loads)
     (OtherContent (CHR ''x'' # deep_object 100000)) =
     Inl (parse_failure ''JSONDecodeError'' ''maximum recursion depth exceeded'')"
proof -
  let ?repair = "json_repair_loads 10000 [] json_loads"
  let ?arrays = "CHR ''x'' # replicate 100000 (CHR ''['')"
  let ?object = "CHR ''x'' # deep_object 100000"
  have b: "(0::nat) < 10000" "(10000::nat) \<le> 100000" "(10000::nat) < 100000" by simp_all
  have 1: "json_loads (sanitize ?arrays) = Inl ''JSONDecodeError''"
    "?repair (sanitize ?arrays) = Inl ''maximum recursion depth exceeded''"
    "search_object (sanitize ?arrays) = None"
    by (simp_all add: sanitize_letter_arrays loads_letter search_letter_arrays
        repair_letter_arrays[OF b(3)] recursion_error_def)
  have 2: "json_loads (sanitize ?object) = Inl ''JSONDecodeError''"
    "?repair (sanitize ?object) = Inl ''maximum recursion depth exceeded''"
    "search_object (sanitize ?object) = Some (deep_object 100000)"
    "?repair (deep_object 100000) =
       Inl ''maximum recursion depth exceeded while decoding a JSON array from a unicode string''"
    by (simp_all add: sanitize_letter_deep_object loads_letter search_letter_deep_object
        repair_letter_deep_object[OF b(2)] repair_deep_object[OF b(1,2)]
        recursion_error_def decoding_def)
  from C8_exhaustion_reports_first_two_errors[where loads = json_loads and repair = ?repair
         and payload = ?arrays, OF 1(1,2)] 1(3)
       C8_exhaustion_reports_first_two_errors[where loads = json_loads and repair = ?repair
         and payload = ?object, OF 2(1,2)] 2(3,4)
  show ?thesis by simp
qed

text \<open>
  C3.  A strict JSON text with exactly the three keys, one of its strings holding a comma
  before a bracket: the text is parsed after the substitution, which deletes the comma
  inside the string, so the value returned is not the value of the text.
\<close>

theorem C3_comma_inside_string_is_deleted:
  "json_loads ''{\"pillar2\": {\"k\": \"a,]\"}, \"pillar3\": {}, \"pillar4\": {}}'' =
     Inr (JObj [(''pillar2'', JObj [(''k'', JStr ''a,]'')]), (''pillar3'', JObj []),
                (''pillar4'', JObj [])]) \<and>
   sanitize ''{\"pillar2\": {\"k\": \"a,]\"}, \"pillar3\": {}, \"pillar4\": {}}'' =
     ''{\"pillar2\": {\"k\": \"a]\"}, \"pillar3\": {}, \"pillar4\": {}}'' \<and>
   pillars_from_content json_loads repair
     (OtherContent ''{\"pillar2\": {\"k\": \"a,]\"}, \"pillar3\": {}, \"pillar4\": {}}'') =
     Inr (JObj [(''pillar2'', JObj [(''k'', JStr ''a]'')]), (''pillar3'', JObj []),
                (''pillar4'', JObj [])])"
proof -
  have 1: "json_loads ''{\"pillar2\": {\"k\": \"a,]\"}, \"pillar3\": {}, \"pillar4\": {}}'' =
     Inr (JObj [(''pillar2'', JObj [(''k'', JStr ''a,]'')]), (''pillar3'', JObj []),
                (''pillar4'', JObj [])])"
    by code_simp
  have 2: "sanitize ''{\"pillar2\": {\"k\": \"a,]\"}, \"pillar3\": {}, \"pillar4\": {}}'' =
     ''{\"pillar2\": {\"k\": \"a]\"}, \"pillar3\": {}, \"pillar4\": {}}''"
    by code_simp
  have 3: "json_loads ''{\"pillar2\": {\"k\": \"a]\"}, \"pillar3\": {}, \"pillar4\": {}}'' =
     Inr (JObj [(''pillar2'', JObj [(''k'', JStr ''a]'')]), (''pillar3'', JObj []),
                (''pillar4'', JObj [])])"
    by code_simp
  have 4: "check_pillars (JObj [(''pillar2'', JObj [(''k'', JStr ''a]'')]), (''pillar3'', JObj []),
                (''pillar4'', JObj [])]) =
     Inr (JObj [(''pillar2'', JObj [(''k'', JStr ''a]'')]), (''pillar3'', JObj []),
                (''pillar4'', JObj [])])"
    by code_simp
  show ?thesis
    unfolding pillars_from_content_def parse_or_repair_def
    by (simp only: 1 2 3 4 content.case sum.case simp_thms)
qed

section \<open>Fences and trailing commas\<close>

lemma lstrip_blank:
  assumes "\<forall>c\<in>set ws. isspace c" "s \<noteq> []" "\<not> isspace (hd s)"
  shows "lstrip (ws @ s) = s"
  using assms by (cases s) (simp_all add: lstrip_def dropWhile_append3)

lemma rstrip_blank:
  assumes "\<forall>c\<in>set ws. isspace c" "s \<noteq> []" "\<not> isspace (last s)"
  shows "rstrip (s @ ws) = s"
proof -
  have "dropWhile isspace (rev ws @ rev s) = rev s"
    using assms by (cases "rev s") (auto simp: dropWhile_append3 last_rev dest: arg_cong[where f = hd] simp: hd_rev)
  then show ?thesis by (simp add: rstrip_def)
qed

lemma strip_blank:
  assumes "\<forall>c\<in>set ws1. isspace c" "\<forall>c\<in>set ws2. isspace c" "s \<noteq> []"
    "\<not> isspace (hd s)" "\<not> isspace (last s)"
  shows "strip (ws1 @ s @ ws2) = s"
proof -
  have "lstrip (ws1 @ s @ ws2) = s @ ws2"
    using assms by (intro lstrip_blank) auto
  then show ?thesis using assms by (simp add: strip_def rstrip_blank)
qed










section \<open>The parser on a text with commas removed\<close>

lemma json_ws_isspace: "json_ws c \<Longrightarrow> isspace c"
  by (auto simp: json_ws_def isspace_def)

lemma closes_Cons:
  "closes (c # s) = (if isspace c then closes s else c = CHR ''}'' \<or> c = CHR '']'')"
  by (simp add: closes_def)

lemma not_space [simp]:
  "\<not> isspace (CHR '','')" "\<not> isspace (CHR ''}'')" "\<not> isspace (CHR '']'')"
  "\<not> isspace (CHR 0x22)" "\<not> isspace (CHR ''{'')" "\<not> isspace (CHR ''['')"
  by (simp_all add: isspace_def)

lemma closes_Nil [simp]: "\<not> closes []"
  by (simp add: closes_def)

lemma closes_head:
  assumes "closes s"
  obtains c t where "s = c # t" "c \<noteq> CHR '',''" "isspace c \<or> c = CHR ''}'' \<or> c = CHR '']''"
proof (cases s)
  case Nil
  with assms show ?thesis by simp
next
  case (Cons c t)
  have "c \<noteq> CHR '',''" "isspace c \<or> c = CHR ''}'' \<or> c = CHR '']''"
    using assms Cons by (auto simp: closes_Cons split: if_splits)
  with Cons that show ?thesis by blast
qed

lemma removed_refl: "commas_removed s s"
  by (induction s) (auto intro: commas_removed.intros)

lemma removed_fix: "commas_removed s (fix_trailing_commas s)"
  by (induction s) (auto intro: commas_removed.intros)

lemma removed_Nil [simp]: "commas_removed [] s' = (s' = [])"
  by (auto elim: commas_removed.cases intro: commas_removed.nil)

lemma removed_keep:
  assumes "commas_removed (c # s) x" "c \<noteq> CHR '',''"
  obtains s' where "x = c # s'" "commas_removed s s'"
  using assms by (auto elim: commas_removed.cases)

lemma removed_closes_head:
  assumes "commas_removed s x" "closes s"
  obtains c t t' where "s = c # t" "x = c # t'" "commas_removed t t'" "c \<noteq> CHR '',''"
    "isspace c \<or> c = CHR ''}'' \<or> c = CHR '']''"
proof -
  from assms(2) obtain c t where s: "s = c # t" "c \<noteq> CHR '',''"
    "isspace c \<or> c = CHR ''}'' \<or> c = CHR '']''" by (rule closes_head)
  from assms(1) s obtain t' where "x = c # t'" "commas_removed t t'"
    by (auto elim: removed_keep)
  with s that show ?thesis by blast
qed

lemma removed_comma:
  assumes "commas_removed (CHR '','' # s) x"
  shows "(\<exists>s'. x = CHR '','' # s' \<and> commas_removed s s') \<or> (commas_removed s x \<and> closes s)"
  using assms by (auto elim: commas_removed.cases)

lemma removed_head_back:
  assumes "commas_removed s (c # r')" "token_char c"
  obtains r where "s = c # r" "commas_removed r r'"
  using assms(1)
proof (cases rule: commas_removed.cases)
  case keep
  then show ?thesis using that by auto
next
  case (drop s0)
  from removed_closes_head[OF drop(2,3)] assms(2) show ?thesis
    by (auto simp: token_char_def)
qed

lemma removed_prefix:
  assumes "commas_removed (p @ r) x" "CHR '','' \<notin> set p"
  obtains r' where "x = p @ r'" "commas_removed r r'"
  using assms
proof (induction p arbitrary: x thesis)
  case Nil
  then show ?case by simp
next
  case (Cons c p)
  from Cons.prems(2,3) obtain y where y: "x = c # y" "commas_removed (p @ r) y"
    by (auto elim: removed_keep)
  from Cons.IH[OF _ y(2)] Cons.prems(3) obtain r' where "y = p @ r'" "commas_removed r r'"
    by auto
  with y Cons.prems(1) show ?case by auto
qed

lemma removed_prefix_back:
  assumes "commas_removed s (p @ r')" "\<forall>c\<in>set p. token_char c"
  obtains r where "s = p @ r" "commas_removed r r'"
  using assms
proof (induction p arbitrary: s thesis)
  case Nil
  then show ?case by simp
next
  case (Cons c p)
  from Cons.prems(2,3) obtain t where t: "s = c # t" "commas_removed t (p @ r')"
    by (auto elim: removed_head_back)
  from Cons.IH[OF _ t(2)] Cons.prems(3) obtain r where "t = p @ r" "commas_removed r r'"
    by auto
  with t Cons.prems(1) show ?case by auto
qed

lemma removed_digits:
  assumes "commas_removed s s'"
  shows "takeWhile is_digit s' = takeWhile is_digit s \<and>
         commas_removed (dropWhile is_digit s) (dropWhile is_digit s')"
  using assms
proof (induction rule: commas_removed.induct)
  case nil
  then show ?case by simp
next
  case (keep s s' c)
  then show ?case by (auto intro: commas_removed.keep)
next
  case (drop s s')
  from removed_closes_head[OF drop(1,2)] obtain c t t' where
    h: "s = c # t" "s' = c # t'" "isspace c \<or> c = CHR ''}'' \<or> c = CHR '']''" by metis
  then have "\<not> is_digit c" by (auto simp: is_digit_def isspace_def)
  with h have "takeWhile is_digit s' = []" "dropWhile is_digit s' = s'" by simp_all
  moreover have "\<not> is_digit (CHR '','')" by (simp add: is_digit_def)
  ultimately show ?case using drop by (auto intro: commas_removed.drop)
qed

lemma hex_val_not_comma: "hex_val h = Some a \<Longrightarrow> h \<noteq> CHR '',''"
  by (auto simp: hex_val_def)

lemma scan_string_removed:
  "scan_string s = Some (str, rest) \<Longrightarrow> commas_removed s s' \<Longrightarrow>
   \<exists>str' rest'. scan_string s' = Some (str', rest') \<and> commas_removed rest rest' \<and>
                 (CHR '','' \<notin> set str \<longrightarrow> str' = str)"
proof (induction "length s" arbitrary: s str rest s' rule: less_induct)
  case less
  note IH = less.hyps
  from less.prems(1) obtain c cs where s: "s = c # cs" by (cases s) auto
  show ?case
  proof (cases "c = CHR 0x22")
    case True
    with less.prems s obtain cs' where "s' = c # cs'" "commas_removed cs cs'"
      by (auto elim: removed_keep)
    with True less.prems(1) s show ?thesis by auto
  next
    case notq: False
    show ?thesis
    proof (cases "c = CHR 0x5C")
      case True
      with less.prems(1) s notq obtain e r where cs: "cs = e # r" by (cases cs) auto
      from less.prems(2) s True obtain cs' where s': "s' = c # cs'" "commas_removed cs cs'"
        by (auto elim: removed_keep)
      show ?thesis
      proof (cases "e = CHR ''u''")
        case u: True
        from less.prems(1) s True notq cs u obtain h1 h2 h3 h4 r0 a b c' d s1 where
          r: "r = h1 # h2 # h3 # h4 # r0" and
          hv: "hex_val h1 = Some a" "hex_val h2 = Some b" "hex_val h3 = Some c'" "hex_val h4 = Some d" and
          ab: "a = 0" "b = 0" and
          rec: "scan_string r0 = Some (s1, rest)" and str: "str = char_of (16 * c' + d) # s1"
          by (auto split: list.splits option.splits if_splits)
        from s'(2) cs u r hv obtain r0' where
          cs': "cs' = e # h1 # h2 # h3 # h4 # r0'" and d0: "commas_removed r0 r0'"
          by (auto elim!: removed_keep dest: hex_val_not_comma)
        have "length r0 < length s" using s cs r by simp
        from IH[OF this rec d0] obtain s1' rest' where
          "scan_string r0' = Some (s1', rest')" "commas_removed rest rest'"
          "CHR '','' \<notin> set s1 \<longrightarrow> s1' = s1" by blast
        with s' cs' u True notq hv ab str show ?thesis by auto
      next
        case nu: False
        from less.prems(1) s True notq cs nu obtain x s1 where
          tab: "map_of
                       [(CHR 0x22, CHR 0x22), (CHR 0x5C, CHR 0x5C), (CHR ''/'', CHR ''/''),
                        (CHR ''b'', CHR 0x08), (CHR ''f'', CHR 0x0C), (CHR ''n'', CHR 0x0A),
                        (CHR ''r'', CHR 0x0D), (CHR ''t'', CHR 0x09)] e = Some x" and
          rec: "scan_string r = Some (s1, rest)" and str: "str = x # s1"
          by (simp split: option.splits) auto
        from tab have "e \<noteq> CHR '',''" by (auto split: if_splits)
        with s'(2) cs obtain r' where cs': "cs' = e # r'" and d0: "commas_removed r r'"
          by (auto elim: removed_keep)
        have "length r < length s" using s cs by simp
        from IH[OF this rec d0] obtain s1' rest' where
          "scan_string r' = Some (s1', rest')" "commas_removed rest rest'"
          "CHR '','' \<notin> set s1 \<longrightarrow> s1' = s1" by blast
        with s' cs' nu True notq tab str show ?thesis by auto
      qed
    next
      case notb: False
      from less.prems(1) s notq notb have ctl: "\<not> (of_char c :: nat) < 32"
        by (auto split: if_splits)
      from less.prems(1) s notq notb ctl obtain s1 where
        rec: "scan_string cs = Some (s1, rest)" and str: "str = c # s1"
        by (auto split: option.splits)
      have len: "length cs < length s" using s by simp
      show ?thesis
      proof (cases "c = CHR '',''")
        case False
        with less.prems(2) s obtain cs' where s': "s' = c # cs'" "commas_removed cs cs'"
          by (auto elim: removed_keep)
        from IH[OF len rec s'(2)] obtain s1' rest' where
          "scan_string cs' = Some (s1', rest')" "commas_removed rest rest'"
          "CHR '','' \<notin> set s1 \<longrightarrow> s1' = s1" by blast
        with s' notq notb ctl str show ?thesis by auto
      next
        case True
        from removed_comma[of cs s'] less.prems(2) s True
        consider cs' where "s' = c # cs'" "commas_removed cs cs'" | "commas_removed cs s'"
          by auto
        then show ?thesis
        proof cases
          case 1
          from IH[OF len rec 1(2)] obtain s1' rest' where
            "scan_string cs' = Some (s1', rest')" "commas_removed rest rest'" by blast
          with 1 notq notb ctl str True show ?thesis by auto
        next
          case 2
          from IH[OF len rec 2] obtain s1' rest' where
            "scan_string s' = Some (s1', rest')" "commas_removed rest rest'" by blast
          with str True show ?thesis by auto
        qed
      qed
    qed
  qed
qed

lemma digit_not_comma: "is_digit c \<Longrightarrow> c \<noteq> CHR '',''"
  by (auto simp: is_digit_def)

lemma scan_int_part_removed:
  assumes "scan_int_part s = Some (ds, rest)" "commas_removed s s'"
  shows "\<exists>rest'. scan_int_part s' = Some (ds, rest') \<and> commas_removed rest rest'"
proof -
  from assms(1) obtain c cs where s: "s = c # cs" and c: "c = CHR ''0'' \<or> is_digit c"
    by (cases s) (auto simp: scan_int_part_def split: if_splits)
  then have "c \<noteq> CHR '',''" by (auto dest: digit_not_comma)
  with assms(2) s obtain cs' where s': "s' = c # cs'" "commas_removed cs cs'"
    by (auto elim: removed_keep)
  from removed_digits[OF s'(2)] assms(1) s s' c show ?thesis
    by (auto simp: scan_int_part_def split: if_splits)
qed

lemma token_chars [simp]:
  "token_char (CHR ''.'')" "token_char (CHR ''+'')" "token_char (CHR ''-'')"
  "token_char (CHR ''e'')" "token_char (CHR ''E'')"
  by (simp_all add: token_char_def isspace_def)

lemma scan_frac_removed:
  assumes "commas_removed s s'"
  shows "fst (scan_frac s') = fst (scan_frac s) \<and>
         commas_removed (snd (scan_frac s)) (snd (scan_frac s'))"
proof (cases "\<exists>cs. s = CHR ''.'' # cs \<and> takeWhile is_digit cs \<noteq> []")
  case True
  then obtain cs where s: "s = CHR ''.'' # cs" "takeWhile is_digit cs \<noteq> []" by blast
  with assms obtain cs' where s': "s' = CHR ''.'' # cs'" "commas_removed cs cs'"
    by (auto elim: removed_keep)
  from removed_digits[OF s'(2)] s s' show ?thesis by (simp add: scan_frac_def)
next
  case False
  then have a: "scan_frac s = ([], s)" by (auto simp: scan_frac_def split: list.splits)
  have "\<not> (\<exists>cs'. s' = CHR ''.'' # cs' \<and> takeWhile is_digit cs' \<noteq> [])"
  proof
    assume "\<exists>cs'. s' = CHR ''.'' # cs' \<and> takeWhile is_digit cs' \<noteq> []"
    then obtain cs' where s': "s' = CHR ''.'' # cs'" "takeWhile is_digit cs' \<noteq> []" by blast
    from assms s'(1) obtain r where "s = CHR ''.'' # r" "commas_removed r cs'"
      by (auto elim: removed_head_back)
    with removed_digits[of r cs'] s'(2) False show False by auto
  qed
  then have "scan_frac s' = ([], s')" by (auto simp: scan_frac_def split: list.splits)
  with a assms show ?thesis by simp
qed

lemma scan_sign_removed:
  assumes "commas_removed s s'"
  shows "fst (scan_sign s') = fst (scan_sign s) \<and>
         commas_removed (snd (scan_sign s)) (snd (scan_sign s'))"
proof (cases "\<exists>g r. s = g # r \<and> (g = CHR ''+'' \<or> g = CHR ''-'')")
  case True
  then obtain g r where s: "s = g # r" "g = CHR ''+'' \<or> g = CHR ''-''" by blast
  then have "g \<noteq> CHR '',''" by auto
  with assms s obtain r' where "s' = g # r'" "commas_removed r r'"
    by (auto elim: removed_keep)
  with s show ?thesis by (auto simp: scan_sign_def)
next
  case False
  then have a: "scan_sign s = ([], s)" by (auto simp: scan_sign_def split: list.splits)
  have "\<not> (\<exists>g r'. s' = g # r' \<and> (g = CHR ''+'' \<or> g = CHR ''-''))"
  proof
    assume "\<exists>g r'. s' = g # r' \<and> (g = CHR ''+'' \<or> g = CHR ''-'')"
    then obtain g r' where s': "s' = g # r'" "g = CHR ''+'' \<or> g = CHR ''-''" by blast
    then have "token_char g" by auto
    with assms s'(1) obtain r where "s = g # r" by (auto elim: removed_head_back)
    with s'(2) False show False by auto
  qed
  then have "scan_sign s' = ([], s')" by (auto simp: scan_sign_def split: list.splits)
  with a assms show ?thesis by simp
qed

lemma scan_exp_removed:
  assumes "commas_removed s s'"
  shows "fst (scan_exp s') = fst (scan_exp s) \<and>
         commas_removed (snd (scan_exp s)) (snd (scan_exp s'))"
proof (cases "\<exists>e cs. s = e # cs \<and> (e = CHR ''e'' \<or> e = CHR ''E'') \<and>
                      takeWhile is_digit (snd (scan_sign cs)) \<noteq> []")
  case True
  then obtain e cs where s: "s = e # cs" "e = CHR ''e'' \<or> e = CHR ''E''"
    "takeWhile is_digit (snd (scan_sign cs)) \<noteq> []" by blast
  then have "e \<noteq> CHR '',''" by auto
  with assms s obtain cs' where s': "s' = e # cs'" "commas_removed cs cs'"
    by (auto elim: removed_keep)
  from scan_sign_removed[OF s'(2)] have sg: "fst (scan_sign cs') = fst (scan_sign cs)"
    "commas_removed (snd (scan_sign cs)) (snd (scan_sign cs'))" by auto
  from removed_digits[OF sg(2)] sg(1) s s' show ?thesis by (simp add: scan_exp_def)
next
  case False
  then have a: "scan_exp s = ([], s)" by (auto simp: scan_exp_def split: list.splits)
  have "\<not> (\<exists>e cs'. s' = e # cs' \<and> (e = CHR ''e'' \<or> e = CHR ''E'') \<and>
                      takeWhile is_digit (snd (scan_sign cs')) \<noteq> [])"
  proof
    assume "\<exists>e cs'. s' = e # cs' \<and> (e = CHR ''e'' \<or> e = CHR ''E'') \<and>
                      takeWhile is_digit (snd (scan_sign cs')) \<noteq> []"
    then obtain e cs' where s': "s' = e # cs'" "e = CHR ''e'' \<or> e = CHR ''E''"
      "takeWhile is_digit (snd (scan_sign cs')) \<noteq> []" by blast
    then have "token_char e" by auto
    with assms s'(1) obtain cs where cs: "s = e # cs" "commas_removed cs cs'"
      by (auto elim: removed_head_back)
    from scan_sign_removed[OF cs(2)]
    have "commas_removed (snd (scan_sign cs)) (snd (scan_sign cs'))" by auto
    from removed_digits[OF this] s'(3) have "takeWhile is_digit (snd (scan_sign cs)) \<noteq> []"
      by simp
    with cs(1) s'(2) False show False by auto
  qed
  then have "scan_exp s' = ([], s')" by (auto simp: scan_exp_def split: list.splits)
  with a assms show ?thesis by simp
qed

lemma scan_number_removed:
  assumes "scan_number s = Some (v, rest)" "commas_removed s s'"
  shows "\<exists>rest'. scan_number s' = Some (v, rest') \<and> commas_removed rest rest'"
proof -
  define sg where "sg = (case s of c # cs \<Rightarrow> if c = CHR ''-'' then ([c], cs) else ([], s) | [] \<Rightarrow> ([], s))"
  define sg' where "sg' = (case s' of c # cs \<Rightarrow> if c = CHR ''-'' then ([c], cs) else ([], s') | [] \<Rightarrow> ([], s'))"
  have sgn: "fst sg' = fst sg \<and> commas_removed (snd sg) (snd sg')"
  proof (cases "\<exists>cs. s = CHR ''-'' # cs")
    case True
    then obtain cs where s: "s = CHR ''-'' # cs" by blast
    with assms(2) obtain cs' where "s' = CHR ''-'' # cs'" "commas_removed cs cs'"
      by (auto elim: removed_keep)
    with s show ?thesis by (simp add: sg_def sg'_def)
  next
    case False
    then have a: "sg = ([], s)" by (auto simp: sg_def split: list.splits)
    have "\<not> (\<exists>cs'. s' = CHR ''-'' # cs')"
    proof
      assume "\<exists>cs'. s' = CHR ''-'' # cs'"
      then obtain cs' where "s' = CHR ''-'' # cs'" by blast
      with assms(2) obtain r where "s = CHR ''-'' # r" by (auto elim: removed_head_back)
      with False show False by auto
    qed
    then have "sg' = ([], s')" by (auto simp: sg'_def split: list.splits)
    with a assms(2) show ?thesis by simp
  qed
  from assms(1) obtain ds s2 where ip: "scan_int_part (snd sg) = Some (ds, s2)"
    by (auto simp: scan_number_def sg_def Let_def split: prod.splits option.splits)
  from scan_int_part_removed[OF ip] sgn obtain s2' where
    ip': "scan_int_part (snd sg') = Some (ds, s2')" and d2: "commas_removed s2 s2'" by blast
  from scan_frac_removed[OF d2] have fr: "fst (scan_frac s2') = fst (scan_frac s2)"
    "commas_removed (snd (scan_frac s2)) (snd (scan_frac s2'))" by auto
  from scan_exp_removed[OF fr(2)]
  have ex: "fst (scan_exp (snd (scan_frac s2'))) = fst (scan_exp (snd (scan_frac s2)))"
    "commas_removed (snd (scan_exp (snd (scan_frac s2)))) (snd (scan_exp (snd (scan_frac s2'))))"
    by auto
  have n: "scan_number s = (let (sign, s1) = sg in case scan_int_part s1 of None \<Rightarrow> None
         | Some (ds, s2) \<Rightarrow>
             (let (frac, s3) = scan_frac s2; (ex, s4) = scan_exp s3
              in if frac = [] \<and> ex = []
                 then Some (JInt (if sign = [] then int (nat_of_digits ds) else - int (nat_of_digits ds)), s4)
                 else Some (JFloat (sign @ ds @ frac @ ex), s4)))"
    by (simp add: scan_number_def sg_def)
  have n': "scan_number s' = (let (sign, s1) = sg' in case scan_int_part s1 of None \<Rightarrow> None
         | Some (ds, s2) \<Rightarrow>
             (let (frac, s3) = scan_frac s2; (ex, s4) = scan_exp s3
              in if frac = [] \<and> ex = []
                 then Some (JInt (if sign = [] then int (nat_of_digits ds) else - int (nat_of_digits ds)), s4)
                 else Some (JFloat (sign @ ds @ frac @ ex), s4)))"
    by (simp add: scan_number_def sg'_def)
  from assms(1) have "rest = snd (scan_exp (snd (scan_frac s2)))"
    unfolding n using ip by (auto simp: Let_def split: prod.splits if_splits)
  moreover from assms(1) have "scan_number s' = Some (v, snd (scan_exp (snd (scan_frac s2'))))"
    unfolding n n' using ip ip' sgn fr(1) ex(1)
    by (auto simp: Let_def split: prod.splits if_splits)
  ultimately show ?thesis using ex(2) by blast
qed

lemma startswith_iff: "startswith s p = (\<exists>r. s = p @ r)"
proof
  assume "startswith s p"
  then have "s = p @ drop (length p) s"
    unfolding startswith_def by (metis append_take_drop_id)
  then show "\<exists>r. s = p @ r" ..
next
  assume "\<exists>r. s = p @ r"
  then show "startswith s p" by (auto simp: startswith_def)
qed

lemma startswith_removed:
  assumes "commas_removed s s'" "\<forall>c\<in>set p. token_char c"
  shows "startswith s' p = startswith s p \<and>
         (startswith s p \<longrightarrow> commas_removed (drop (length p) s) (drop (length p) s'))"
proof -
  have nc: "CHR '','' \<notin> set p" using assms(2) by (auto simp: token_char_def)
  show ?thesis
  proof (cases "startswith s p")
    case True
    then obtain r where r: "s = p @ r" unfolding startswith_iff by blast
    with assms(1) nc obtain r' where "s' = p @ r'" "commas_removed r r'"
      by (auto elim: removed_prefix)
    with r True show ?thesis by (auto simp: startswith_iff)
  next
    case False
    have "\<not> startswith s' p"
    proof
      assume "startswith s' p"
      then obtain r' where "s' = p @ r'" unfolding startswith_iff by blast
      with assms obtain r where "s = p @ r" by (auto elim: removed_prefix_back)
      with False show False by (auto simp: startswith_iff)
    qed
    with False show ?thesis by simp
  qed
qed

lemma literal_token_chars:
  "\<forall>c\<in>set ''null''. token_char c" "\<forall>c\<in>set ''true''. token_char c"
  "\<forall>c\<in>set ''false''. token_char c" "\<forall>c\<in>set ''NaN''. token_char c"
  "\<forall>c\<in>set ''Infinity''. token_char c" "\<forall>c\<in>set ''-Infinity''. token_char c"
  by (simp_all add: token_char_def isspace_def)

lemma scan_literal_removed:
  assumes "scan_literal s = Some (v, rest)" "commas_removed s s'"
  shows "\<exists>rest'. scan_literal s' = Some (v, rest') \<and> commas_removed rest rest'"
proof -
  note sw = literal_token_chars[THEN startswith_removed[OF assms(2)]]
  have lit: "\<exists>rest'. scan_literal s' = Some (v, rest') \<and> commas_removed rest rest'"
    if "startswith s p" "scan_literal s = Some (w, drop (length p) s)"
       "scan_literal s' = Some (w, drop (length p) s')"
       "startswith s' p = startswith s p \<and>
        (startswith s p \<longrightarrow> commas_removed (drop (length p) s) (drop (length p) s'))"
    for p w
    using that assms(1) by auto
  consider (null) "startswith s ''null''"
    | (true) "\<not> startswith s ''null''" "startswith s ''true''"
    | (false) "\<not> startswith s ''null''" "\<not> startswith s ''true''" "startswith s ''false''"
    | (nan) "\<not> startswith s ''null''" "\<not> startswith s ''true''" "\<not> startswith s ''false''"
        "startswith s ''NaN''"
    | (inf) "\<not> startswith s ''null''" "\<not> startswith s ''true''" "\<not> startswith s ''false''"
        "\<not> startswith s ''NaN''" "startswith s ''Infinity''"
    | (ninf) "\<not> startswith s ''null''" "\<not> startswith s ''true''" "\<not> startswith s ''false''"
        "\<not> startswith s ''NaN''" "\<not> startswith s ''Infinity''" "startswith s ''-Infinity''"
    | (num) "\<not> startswith s ''null''" "\<not> startswith s ''true''" "\<not> startswith s ''false''"
        "\<not> startswith s ''NaN''" "\<not> startswith s ''Infinity''" "\<not> startswith s ''-Infinity''"
    by blast
  then show ?thesis
  proof cases
    case null
    show ?thesis
      by (rule lit[OF null, of JNull]) (use null sw(1) in \<open>simp_all add: scan_literal_def eval_nat_numeral\<close>)
  next
    case true
    show ?thesis
      by (rule lit[OF true(2), of "JBool True"])
         (use true sw(1,2) in \<open>simp_all add: scan_literal_def eval_nat_numeral\<close>)
  next
    case false
    show ?thesis
      by (rule lit[OF false(3), of "JBool False"])
         (use false sw(1,2,3) in \<open>simp_all add: scan_literal_def eval_nat_numeral\<close>)
  next
    case nan
    show ?thesis
      by (rule lit[OF nan(4), of "JFloat ''NaN''"])
         (use nan sw(1,2,3,4) in \<open>simp_all add: scan_literal_def eval_nat_numeral\<close>)
  next
    case inf
    show ?thesis
      by (rule lit[OF inf(5), of "JFloat ''Infinity''"])
         (use inf sw(1,2,3,4,5) in \<open>simp_all add: scan_literal_def eval_nat_numeral\<close>)
  next
    case ninf
    show ?thesis
      by (rule lit[OF ninf(6), of "JFloat ''-Infinity''"])
         (use ninf sw in \<open>simp_all add: scan_literal_def eval_nat_numeral\<close>)
  next
    case num
    with assms(1) have n: "scan_number s = Some (v, rest)" by (simp add: scan_literal_def)
    from num sw have "scan_literal s' = scan_number s'" by (simp add: scan_literal_def)
    with scan_number_removed[OF n assms(2)] show ?thesis by simp
  qed
qed

lemma json_ws_not_comma: "json_ws c \<Longrightarrow> c \<noteq> CHR '',''"
  by (auto simp: json_ws_def)

lemma skip_ws_removed:
  assumes "commas_removed s s'" "skip_ws s = d # r" "d \<noteq> CHR '','' \<or> \<not> closes r"
  shows "\<exists>r'. skip_ws s' = d # r' \<and> commas_removed r r'"
  using assms
proof (induction s arbitrary: s')
  case Nil
  then show ?case by (simp add: skip_ws_def)
next
  case (Cons c t)
  show ?case
  proof (cases "json_ws c")
    case True
    with Cons.prems(1) obtain t' where s': "s' = c # t'" "commas_removed t t'"
      by (auto elim: removed_keep dest: json_ws_not_comma)
    from Cons.prems(2) True have "skip_ws t = d # r" by (simp add: skip_ws_def)
    from Cons.IH[OF s'(2) this Cons.prems(3)] s' True show ?thesis by (simp add: skip_ws_def)
  next
    case False
    with Cons.prems(2) have eq: "c = d" "t = r" by (simp_all add: skip_ws_def)
    show ?thesis
    proof (cases "d = CHR '',''")
      case True
      with Cons.prems(3) have "\<not> closes r" by simp
      with removed_comma[of r s'] Cons.prems(1) eq True
      obtain r' where "s' = d # r'" "commas_removed r r'" by auto
      with False eq show ?thesis by (auto simp: skip_ws_def)
    next
      case nd: False
      with Cons.prems(1) eq obtain r' where "s' = d # r'" "commas_removed r r'"
        by (auto elim: removed_keep)
      with False eq show ?thesis by (auto simp: skip_ws_def)
    qed
  qed
qed

lemma skip_ws_removed_Nil:
  assumes "commas_removed s s'" "skip_ws s = []"
  shows "skip_ws s' = []"
  using assms
proof (induction s arbitrary: s')
  case Nil
  then show ?case by (simp add: skip_ws_def)
next
  case (Cons c t)
  from Cons.prems(2) have c: "json_ws c" and t: "skip_ws t = []"
    by (auto simp: skip_ws_def split: if_splits)
  with Cons.prems(1) obtain t' where "s' = c # t'" "commas_removed t t'"
    by (auto elim: removed_keep dest: json_ws_not_comma)
  with Cons.IH[OF _ t] c show ?case by (simp add: skip_ws_def)
qed

lemma skip_ws_not_closes:
  assumes "skip_ws r = d # t" "\<not> isspace d" "d \<noteq> CHR ''}''" "d \<noteq> CHR '']''"
  shows "\<not> closes r"
  using assms
proof (induction r)
  case Nil
  then show ?case by simp
next
  case (Cons c r)
  then show ?case
    by (cases "json_ws c") (auto simp: skip_ws_def closes_Cons dest: json_ws_isspace)
qed

lemma scan_value_Suc_cases:
  assumes "scan_value (Suc n) s = Some (v, rest)"
  obtains (str) cs str where "s = CHR 0x22 # cs" "scan_string cs = Some (str, rest)" "v = JStr str"
  | (empty_obj) cs where "s = CHR ''{'' # cs" "skip_ws cs = CHR ''}'' # rest" "v = JObj []"
  | (obj) cs d r0 where "s = CHR ''{'' # cs" "skip_ws cs = d # r0" "d \<noteq> CHR ''}''"
      "scan_members n [] (d # r0) = Some (v, rest)"
  | (empty_arr) cs where "s = CHR ''['' # cs" "skip_ws cs = CHR '']'' # rest" "v = JArr []"
  | (arr) cs d r0 where "s = CHR ''['' # cs" "skip_ws cs = d # r0" "d \<noteq> CHR '']''"
      "scan_elements n [] (d # r0) = Some (v, rest)"
  | (lit) c cs where "s = c # cs" "c \<noteq> CHR 0x22" "c \<noteq> CHR ''{''" "c \<noteq> CHR ''[''"
      "scan_literal s = Some (v, rest)"
  using assms
  by (cases s) (auto split: if_splits option.splits list.splits)

lemma scan_members_Suc_cases:
  assumes "scan_members (Suc n) acc s = Some (v, rest)"
  obtains (last) cs k r1 r2 v0 r3 where "s = CHR 0x22 # cs" "scan_string cs = Some (k, r1)"
      "skip_ws r1 = CHR '':'' # r2" "scan_value n (skip_ws r2) = Some (v0, r3)"
      "skip_ws r3 = CHR ''}'' # rest" "v = JObj (dict_set acc k v0)"
  | (more) cs k r1 r2 v0 r3 r4 where "s = CHR 0x22 # cs" "scan_string cs = Some (k, r1)"
      "skip_ws r1 = CHR '':'' # r2" "scan_value n (skip_ws r2) = Some (v0, r3)"
      "skip_ws r3 = CHR '','' # r4"
      "scan_members n (dict_set acc k v0) (skip_ws r4) = Some (v, rest)"
  using assms
  by (cases s) (auto split: if_splits option.splits list.splits)

lemma scan_elements_Suc_cases:
  assumes "scan_elements (Suc n) acc s = Some (v, rest)"
  obtains (last) v0 r1 where "scan_value n s = Some (v0, r1)" "skip_ws r1 = CHR '']'' # rest"
      "v = JArr (acc @ [v0])"
  | (more) v0 r1 r2 where "scan_value n s = Some (v0, r1)" "skip_ws r1 = CHR '','' # r2"
      "scan_elements n (acc @ [v0]) (skip_ws r2) = Some (v, rest)"
  using assms
  by (auto split: if_splits option.splits list.splits)

lemma digit_token_char: "is_digit c \<Longrightarrow> token_char c"
  by (auto simp: is_digit_def token_char_def isspace_def)

lemma scan_number_start:
  assumes "scan_number s = Some (v, rest)"
  shows "\<exists>c cs. s = c # cs \<and> token_char c"
proof (cases s)
  case Nil
  with assms show ?thesis by (simp add: scan_number_def scan_int_part_def)
next
  case (Cons c cs)
  show ?thesis
  proof (cases "c = CHR ''-''")
    case True
    with Cons show ?thesis by simp
  next
    case False
    with assms Cons have "is_digit c"
      by (auto simp: scan_number_def scan_int_part_def Let_def is_digit_def
          split: option.splits if_splits prod.splits)
    with Cons show ?thesis by (simp add: digit_token_char)
  qed
qed

lemma scan_literal_start:
  assumes "scan_literal s = Some (v, rest)"
  shows "\<exists>c cs. s = c # cs \<and> token_char c"
proof -
  have p: "\<exists>c cs. s = c # cs \<and> token_char c"
    if "startswith s p" "p \<noteq> []" "\<forall>c\<in>set p. token_char c" for p
    using that by (cases p) (auto simp: startswith_iff)
  consider "startswith s ''null''" | "startswith s ''true''" | "startswith s ''false''"
    | "startswith s ''NaN''" | "startswith s ''Infinity''" | "startswith s ''-Infinity''"
    | "scan_number s = Some (v, rest)"
    using assms by (auto simp: scan_literal_def split: if_splits)
  then show ?thesis
  proof cases
    case 1 then show ?thesis by (rule p) (simp_all add: literal_token_chars)
  next
    case 2 then show ?thesis by (rule p) (simp_all add: literal_token_chars)
  next
    case 3 then show ?thesis by (rule p) (simp_all add: literal_token_chars)
  next
    case 4 then show ?thesis by (rule p) (simp_all add: literal_token_chars)
  next
    case 5 then show ?thesis by (rule p) (simp_all add: literal_token_chars)
  next
    case 6 then show ?thesis by (rule p) (simp_all add: literal_token_chars)
  next
    case 7 then show ?thesis by (rule scan_number_start)
  qed
qed

lemma token_char_open [simp]:
  "token_char (CHR 0x22)" "token_char (CHR ''{'')" "token_char (CHR ''['')" "token_char (CHR '':'')"
  by (simp_all add: token_char_def isspace_def)

lemma scan_value_start:
  assumes "scan_value n s = Some (v, rest)"
  shows "\<exists>c cs. s = c # cs \<and> token_char c"
proof (cases n)
  case 0
  with assms show ?thesis by simp
next
  case (Suc m)
  from assms[unfolded Suc] show ?thesis
    by (cases rule: scan_value_Suc_cases) (auto dest: scan_literal_start)
qed

lemma scan_members_start:
  assumes "scan_members n acc s = Some (v, rest)"
  shows "\<exists>cs. s = CHR 0x22 # cs"
proof (cases n)
  case 0
  with assms show ?thesis by simp
next
  case (Suc m)
  from assms[unfolded Suc] show ?thesis
    by (cases rule: scan_members_Suc_cases) auto
qed

lemma scan_elements_start:
  assumes "scan_elements n acc s = Some (v, rest)"
  shows "\<exists>c cs. s = c # cs \<and> token_char c"
proof (cases n)
  case 0
  with assms show ?thesis by simp
next
  case (Suc m)
  from assms[unfolded Suc] show ?thesis
    by (cases rule: scan_elements_Suc_cases) (auto dest: scan_value_start)
qed

lemma skip_ws_token_removed:
  assumes "commas_removed s s'" "skip_ws s = c # t" "token_char c"
  shows "\<exists>t'. skip_ws s' = c # t' \<and> commas_removed (c # t) (c # t')"
proof -
  from assms(3) have "c \<noteq> CHR '',''" by (simp add: token_char_def)
  with skip_ws_removed[OF assms(1,2)] show ?thesis
    by (auto intro: commas_removed.keep)
qed

lemma dict_set_keys: "fst ` set (dict_set kvs k v) = insert k (fst ` set kvs)"
  by (auto simp: dict_set_def map_of_eq_None_iff image_iff split: if_splits prod.splits)
    (metis fst_conv)+

lemma keeps_keys_dict_set:
  assumes "keeps_keys acc acc'" "CHR '','' \<notin> set k \<longrightarrow> k' = k"
  shows "keeps_keys (dict_set acc k v) (dict_set acc' k' v')"
  using assms dict_set_keys[of acc k v] dict_set_keys[of acc' k' v']
  unfolding keeps_keys_def map_of_eq_None_iff
  by (metis insert_iff)

lemma keeps_keys_refl [simp]: "keeps_keys kvs kvs"
  by (simp add: keeps_keys_def)

lemma same_shape_simps [simp]:
  "same_shape (JStr a) v'" "same_shape (JArr xs) v'" "same_shape JNull v'"
  "same_shape (JBool b) v'" "same_shape (JInt i) v'" "same_shape (JFloat f) v'"
  "same_shape (JObj kvs) (JObj kvs') = keeps_keys kvs kvs'"
  by (simp_all add: same_shape_def)

lemma scan_literal_shape: "scan_literal s = Some (v, rest) \<Longrightarrow> same_shape v v'"
  by (auto simp: scan_literal_def scan_number_def Let_def
      split: if_splits option.splits prod.splits)

lemma scan_elements_JArr:
  "scan_elements n acc s = Some (v, rest) \<Longrightarrow> \<exists>xs. v = JArr xs"
proof (induction n arbitrary: acc s)
  case 0
  then show ?case by simp
next
  case (Suc n)
  from Suc.prems show ?case
    by (cases rule: scan_elements_Suc_cases) (auto dest: Suc.IH)
qed

lemma scan_members_JObj:
  "scan_members n acc s = Some (v, rest) \<Longrightarrow> \<exists>kvs. v = JObj kvs"
proof (induction n arbitrary: acc s)
  case 0
  then show ?case by simp
next
  case (Suc n)
  from Suc.prems show ?case
    by (cases rule: scan_members_Suc_cases) (auto dest: Suc.IH)
qed

lemma value_sim_Suc:
  assumes "members_sim n" "elements_sim n"
  shows "value_sim (Suc n)"
  unfolding value_sim_def
proof (intro allI impI)
  fix s s' v rest
  assume sc: "scan_value (Suc n) s = Some (v, rest)" and d: "commas_removed s s'"
  from sc show "\<exists>v' rest'. scan_value (Suc n) s' = Some (v', rest') \<and>
                  commas_removed rest rest' \<and> same_shape v v'"
  proof (cases rule: scan_value_Suc_cases)
    case (str cs str)
    with d obtain cs' where s': "s' = CHR 0x22 # cs'" "commas_removed cs cs'"
      by (auto elim: removed_keep)
    from scan_string_removed[OF str(2) s'(2)] s' str show ?thesis by auto
  next
    case (empty_obj cs)
    with d obtain cs' where s': "s' = CHR ''{'' # cs'" "commas_removed cs cs'"
      by (auto elim: removed_keep)
    from skip_ws_removed[OF s'(2) empty_obj(2)] s' empty_obj show ?thesis by auto
  next
    case (obj cs d0 r0)
    with d obtain cs' where s': "s' = CHR ''{'' # cs'" "commas_removed cs cs'"
      by (auto elim: removed_keep)
    from scan_members_start[OF obj(4)] have d0: "d0 = CHR 0x22" by simp
    with skip_ws_token_removed[OF s'(2) obj(2)] obtain r0' where
      r0': "skip_ws cs' = d0 # r0'" "commas_removed (d0 # r0) (d0 # r0')" by auto
    from assms(1) obj(4) r0'(2) obtain v' rest' where
      "scan_members n [] (d0 # r0') = Some (v', rest')" "commas_removed rest rest'"
      "same_shape v v'"
      unfolding members_sim_def by (metis keeps_keys_refl)
    with s' r0' d0 show ?thesis by auto
  next
    case (empty_arr cs)
    with d obtain cs' where s': "s' = CHR ''['' # cs'" "commas_removed cs cs'"
      by (auto elim: removed_keep)
    from skip_ws_removed[OF s'(2) empty_arr(2)] s' empty_arr show ?thesis by auto
  next
    case (arr cs d0 r0)
    with d obtain cs' where s': "s' = CHR ''['' # cs'" "commas_removed cs cs'"
      by (auto elim: removed_keep)
    from scan_elements_start[OF arr(4)] have d0: "token_char d0" by simp
    with skip_ws_token_removed[OF s'(2) arr(2)] obtain r0' where
      r0': "skip_ws cs' = d0 # r0'" "commas_removed (d0 # r0) (d0 # r0')" by auto
    from assms(2) arr(4) r0'(2) obtain v' rest' where
      e: "scan_elements n [] (d0 # r0') = Some (v', rest')" "commas_removed rest rest'"
      unfolding elements_sim_def by blast
    from scan_elements_JArr[OF arr(4)] have "same_shape v v'" by auto
    with s' r0' arr(3) e show ?thesis by auto
  next
    case (lit c cs)
    from scan_literal_start[OF lit(5)] lit(1) have "c \<noteq> CHR '',''"
      by (auto simp: token_char_def)
    with d lit(1) obtain cs' where s': "s' = c # cs'" by (auto elim: removed_keep)
    from scan_literal_removed[OF lit(5) d] obtain rest' where
      "scan_literal s' = Some (v, rest')" "commas_removed rest rest'" by blast
    with s' lit scan_literal_shape[OF lit(5)] show ?thesis by auto
  qed
qed

lemma members_sim_Suc:
  assumes "value_sim n" "members_sim n"
  shows "members_sim (Suc n)"
  unfolding members_sim_def
proof (intro allI impI)
  fix acc acc' s s' v rest
  assume sc: "scan_members (Suc n) acc s = Some (v, rest)" and d: "commas_removed s s'"
    and kk: "keeps_keys acc acc'"
  have common: "\<exists>k' r1' r2' v0' r3'. s' = CHR 0x22 # tl s' \<and>
      scan_string (tl s') = Some (k', r1') \<and> skip_ws r1' = CHR '':'' # r2' \<and>
      scan_value n (skip_ws r2') = Some (v0', r3') \<and> commas_removed r3 r3' \<and>
      keeps_keys (dict_set acc k v0) (dict_set acc' k' v0')"
    if h: "s = CHR 0x22 # cs" "scan_string cs = Some (k, r1)"
      "skip_ws r1 = CHR '':'' # r2" "scan_value n (skip_ws r2) = Some (v0, r3)"
    for cs k r1 r2 v0 r3
  proof -
    from d h(1) obtain cs' where s': "s' = CHR 0x22 # cs'" "commas_removed cs cs'"
      by (auto elim: removed_keep)
    from scan_string_removed[OF h(2) s'(2)] obtain k' r1' where
      k': "scan_string cs' = Some (k', r1')" "commas_removed r1 r1'"
      "CHR '','' \<notin> set k \<longrightarrow> k' = k" by blast
    from skip_ws_removed[OF k'(2) h(3)] obtain r2' where
      r2': "skip_ws r1' = CHR '':'' # r2'" "commas_removed r2 r2'" by auto
    from scan_value_start[OF h(4)] obtain c t where ct: "skip_ws r2 = c # t" "token_char c"
      by blast
    from skip_ws_token_removed[OF r2'(2) ct] obtain t' where
      "skip_ws r2' = c # t'" "commas_removed (c # t) (c # t')" by blast
    with ct have "commas_removed (skip_ws r2) (skip_ws r2')" by simp
    with assms(1) h(4) obtain v0' r3' where
      v0': "scan_value n (skip_ws r2') = Some (v0', r3')" "commas_removed r3 r3'"
      unfolding value_sim_def by blast
    from keeps_keys_dict_set[OF kk k'(3)] s' k' r2' v0' show ?thesis by auto
  qed
  from sc show "\<exists>v' rest'. scan_members (Suc n) acc' s' = Some (v', rest') \<and>
                  commas_removed rest rest' \<and> same_shape v v'"
  proof (cases rule: scan_members_Suc_cases)
    case (last cs k r1 r2 v0 r3)
    from common[OF last(1-4)] obtain cs' k' r1' r2' v0' r3' where
      c: "s' = CHR 0x22 # cs'" "scan_string cs' = Some (k', r1')" "skip_ws r1' = CHR '':'' # r2'"
      "scan_value n (skip_ws r2') = Some (v0', r3')" "commas_removed r3 r3'"
      "keeps_keys (dict_set acc k v0) (dict_set acc' k' v0')" by blast
    from skip_ws_removed[OF c(5) last(5)] obtain rest' where
      "skip_ws r3' = CHR ''}'' # rest'" "commas_removed rest rest'" by auto
    with c last(6) show ?thesis by auto
  next
    case (more cs k r1 r2 v0 r3 r4)
    from common[OF more(1-4)] obtain cs' k' r1' r2' v0' r3' where
      c: "s' = CHR 0x22 # cs'" "scan_string cs' = Some (k', r1')" "skip_ws r1' = CHR '':'' # r2'"
      "scan_value n (skip_ws r2') = Some (v0', r3')" "commas_removed r3 r3'"
      "keeps_keys (dict_set acc k v0) (dict_set acc' k' v0')" by blast
    from scan_members_start[OF more(6)] obtain t where t: "skip_ws r4 = CHR 0x22 # t" by blast
    then have "\<not> closes r4" by (rule skip_ws_not_closes) simp_all
    with skip_ws_removed[OF c(5) more(5)] obtain r4' where
      r4': "skip_ws r3' = CHR '','' # r4'" "commas_removed r4 r4'" by auto
    from skip_ws_token_removed[OF r4'(2) t] t
    have "commas_removed (skip_ws r4) (skip_ws r4')" by auto
    with assms(2) more(6) c(6) obtain v' rest' where
      "scan_members n (dict_set acc' k' v0') (skip_ws r4') = Some (v', rest')"
      "commas_removed rest rest'" "same_shape v v'"
      unfolding members_sim_def by blast
    with c r4' show ?thesis by auto
  qed
qed

lemma elements_sim_Suc:
  assumes "value_sim n" "elements_sim n"
  shows "elements_sim (Suc n)"
  unfolding elements_sim_def
proof (intro allI impI)
  fix acc acc' s s' v rest
  assume sc: "scan_elements (Suc n) acc s = Some (v, rest)" and d: "commas_removed s s'"
  from sc show "\<exists>v' rest'. scan_elements (Suc n) acc' s' = Some (v', rest') \<and>
                  commas_removed rest rest'"
  proof (cases rule: scan_elements_Suc_cases)
    case (last v0 r1)
    from assms(1) last(1) d obtain v0' r1' where
      v0': "scan_value n s' = Some (v0', r1')" "commas_removed r1 r1'"
      unfolding value_sim_def by blast
    from skip_ws_removed[OF v0'(2) last(2)] obtain rest' where
      "skip_ws r1' = CHR '']'' # rest'" "commas_removed rest rest'" by auto
    with v0' show ?thesis by auto
  next
    case (more v0 r1 r2)
    from assms(1) more(1) d obtain v0' r1' where
      v0': "scan_value n s' = Some (v0', r1')" "commas_removed r1 r1'"
      unfolding value_sim_def by blast
    from scan_elements_start[OF more(3)] obtain c t where
      t: "skip_ws r2 = c # t" "token_char c" by blast
    then have "\<not> closes r2"
      by (intro skip_ws_not_closes[of r2 c t]) (auto simp: token_char_def)
    with skip_ws_removed[OF v0'(2) more(2)] obtain r2' where
      r2': "skip_ws r1' = CHR '','' # r2'" "commas_removed r2 r2'" by auto
    from skip_ws_token_removed[OF r2'(2) t] t
    have "commas_removed (skip_ws r2) (skip_ws r2')" by auto
    with assms(2) more(3) obtain v' rest' where
      "scan_elements n (acc' @ [v0']) (skip_ws r2') = Some (v', rest')"
      "commas_removed rest rest'"
      unfolding elements_sim_def by blast
    with v0' r2' show ?thesis by auto
  qed
qed

lemma scan_sim: "value_sim n \<and> members_sim n \<and> elements_sim n"
proof (induction n)
  case 0
  show ?case by (simp add: value_sim_def members_sim_def elements_sim_def)
next
  case (Suc n)
  then show ?case using value_sim_Suc members_sim_Suc elements_sim_Suc by blast
qed

lemma scan_string_shorter:
  "scan_string s = Some (str, rest) \<Longrightarrow> length rest < length s"
proof (induction "length s" arbitrary: s str rest rule: less_induct)
  case less
  have IH: "length r' < length t + k"
    if "scan_string t = Some (x, r')" "length t < length s" for t x r' k
    using less.hyps[OF that(2) that(1)] by simp
  from less.prems obtain c cs where s: "s = c # cs" by (cases s) auto
  from less.prems[unfolded s] show ?case unfolding s
    by (auto split: if_splits list.splits option.splits prod.splits
        dest!: IH[where k = 6, unfolded s] IH[where k = 2, unfolded s] IH[where k = 1, unfolded s])
qed

lemma skip_ws_length: "length (skip_ws s) \<le> length s"
  by (simp add: skip_ws_def length_dropWhile_le)

lemma skip_ws_Cons_length: "skip_ws s = d # r \<Longrightarrow> length r < length s"
  using skip_ws_length[of s] by simp

lemma scan_frac_length: "length (snd (scan_frac s)) \<le> length s"
  by (cases s) (auto simp: scan_frac_def intro: le_SucI length_dropWhile_le)

lemma scan_sign_length: "length (snd (scan_sign s)) \<le> length s"
  by (cases s) (auto simp: scan_sign_def)

lemma scan_exp_length: "length (snd (scan_exp s)) \<le> length s"
proof (cases s)
  case Nil
  then show ?thesis by (simp add: scan_exp_def)
next
  case (Cons e cs)
  have "length (dropWhile is_digit (snd (scan_sign cs))) \<le> length cs"
    using length_dropWhile_le[of is_digit "snd (scan_sign cs)"] scan_sign_length[of cs] by simp
  with Cons show ?thesis by (auto simp: scan_exp_def)
qed

lemma scan_int_part_length: "scan_int_part s = Some (ds, rest) \<Longrightarrow> length rest < length s"
  by (cases s) (auto simp: scan_int_part_def less_Suc_eq_le length_dropWhile_le split: if_splits)

lemma scan_number_shorter:
  assumes "scan_number s = Some (v, rest)"
  shows "length rest < length s"
proof -
  define s1 where "s1 = snd (case s of c # cs \<Rightarrow> if c = CHR ''-'' then ([c], cs) else ([], s) | [] \<Rightarrow> ([], s))"
  have l1: "length s1 \<le> length s" by (cases s) (auto simp: s1_def)
  from assms obtain ds s2 where ip: "scan_int_part s1 = Some (ds, s2)"
    and r: "rest = snd (scan_exp (snd (scan_frac s2)))"
    by (auto simp: scan_number_def s1_def Let_def split: prod.splits option.splits if_splits)
  from scan_int_part_length[OF ip] scan_frac_length[of s2] scan_exp_length[of "snd (scan_frac s2)"] l1 r
  show ?thesis by simp
qed

lemma scan_literal_shorter:
  assumes "scan_literal s = Some (v, rest)"
  shows "length rest < length s"
proof -
  from scan_literal_start[OF assms] have "s \<noteq> []" by auto
  with assms scan_number_shorter[of s v rest] show ?thesis
    by (auto simp: scan_literal_def split: if_splits)
qed

lemma value_fuel_Suc:
  assumes "members_fuel n" "elements_fuel n"
  shows "value_fuel (Suc n)"
  unfolding value_fuel_def
proof (intro allI impI)
  fix s v rest
  assume sc: "scan_value (Suc n) s = Some (v, rest)"
  from sc show "length rest < length s \<and>
     (\<forall>m. length s - length rest \<le> m \<longrightarrow> scan_value m s = Some (v, rest))"
  proof (cases rule: scan_value_Suc_cases)
    case (str cs str)
    from scan_string_shorter[OF str(2)] str have l: "length rest < length s" by simp
    have "scan_value m s = Some (v, rest)" if "length s - length rest \<le> m" for m
    proof -
      from that l obtain m' where "m = Suc m'" by (cases m) auto
      with str show ?thesis by simp
    qed
    with l show ?thesis by blast
  next
    case (empty_obj cs)
    from skip_ws_Cons_length[OF empty_obj(2)] empty_obj have l: "length rest < length s" by simp
    have "scan_value m s = Some (v, rest)" if "length s - length rest \<le> m" for m
    proof -
      from that l obtain m' where "m = Suc m'" by (cases m) auto
      with empty_obj show ?thesis by simp
    qed
    with l show ?thesis by blast
  next
    case (obj cs d r0)
    from assms(1) obj(4) have ih: "length rest < length (d # r0)"
      "\<And>m. length (d # r0) - length rest \<le> m \<Longrightarrow> scan_members m [] (d # r0) = Some (v, rest)"
      unfolding members_fuel_def by blast+
    from skip_ws_length[of cs] obj(2) have l0: "length (d # r0) \<le> length cs" by simp
    with ih(1) obj(1) have l: "length rest < length s" by simp
    have "scan_value m s = Some (v, rest)" if "length s - length rest \<le> m" for m
    proof -
      from that l obtain m' where m: "m = Suc m'" by (cases m) auto
      with that l0 obj(1) have "length (d # r0) - length rest \<le> m'" by simp
      from ih(2)[OF this] m obj show ?thesis by simp
    qed
    with l show ?thesis by blast
  next
    case (empty_arr cs)
    from skip_ws_Cons_length[OF empty_arr(2)] empty_arr have l: "length rest < length s" by simp
    have "scan_value m s = Some (v, rest)" if "length s - length rest \<le> m" for m
    proof -
      from that l obtain m' where "m = Suc m'" by (cases m) auto
      with empty_arr show ?thesis by simp
    qed
    with l show ?thesis by blast
  next
    case (arr cs d r0)
    from assms(2) arr(4) have ih: "length rest < length (d # r0)"
      "\<And>m. length (d # r0) - length rest \<le> m \<Longrightarrow> scan_elements m [] (d # r0) = Some (v, rest)"
      unfolding elements_fuel_def by blast+
    from skip_ws_length[of cs] arr(2) have l0: "length (d # r0) \<le> length cs" by simp
    with ih(1) arr(1) have l: "length rest < length s" by simp
    have "scan_value m s = Some (v, rest)" if "length s - length rest \<le> m" for m
    proof -
      from that l obtain m' where m: "m = Suc m'" by (cases m) auto
      with that l0 arr(1) have "length (d # r0) - length rest \<le> m'" by simp
      from ih(2)[OF this] m arr show ?thesis by simp
    qed
    with l show ?thesis by blast
  next
    case (lit c cs)
    from scan_literal_shorter[OF lit(5)] have l: "length rest < length s" .
    have "scan_value m s = Some (v, rest)" if "length s - length rest \<le> m" for m
    proof -
      from that l obtain m' where "m = Suc m'" by (cases m) auto
      with lit show ?thesis by simp
    qed
    with l show ?thesis by blast
  qed
qed

lemma members_fuel_Suc:
  assumes "value_fuel n" "members_fuel n"
  shows "members_fuel (Suc n)"
  unfolding members_fuel_def
proof (intro allI impI)
  fix acc s v rest
  assume sc: "scan_members (Suc n) acc s = Some (v, rest)"
  from sc show "length rest < length s \<and>
     (\<forall>m. length s - length rest \<le> m \<longrightarrow> scan_members m acc s = Some (v, rest))"
  proof (cases rule: scan_members_Suc_cases)
    case (last cs k r1 r2 v0 r3)
    from assms(1) last(4) have ih: "length r3 < length (skip_ws r2)"
      "\<And>m. length (skip_ws r2) - length r3 \<le> m \<Longrightarrow> scan_value m (skip_ws r2) = Some (v0, r3)"
      unfolding value_fuel_def by blast+
    note ls = scan_string_shorter[OF last(2)] skip_ws_Cons_length[OF last(3)]
      skip_ws_length[of r2] skip_ws_Cons_length[OF last(5)]
    from ls ih(1) last(1) have l: "length rest < length s" by simp
    have "scan_members m acc s = Some (v, rest)" if "length s - length rest \<le> m" for m
    proof -
      from that l obtain m' where m: "m = Suc m'" by (cases m) auto
      with that ls ih(1) last(1) have "length (skip_ws r2) - length r3 \<le> m'" by simp
      from ih(2)[OF this] m last show ?thesis by simp
    qed
    with l show ?thesis by blast
  next
    case (more cs k r1 r2 v0 r3 r4)
    from assms(1) more(4) have ih: "length r3 < length (skip_ws r2)"
      "\<And>m. length (skip_ws r2) - length r3 \<le> m \<Longrightarrow> scan_value m (skip_ws r2) = Some (v0, r3)"
      unfolding value_fuel_def by blast+
    from assms(2) more(6) have ih2: "length rest < length (skip_ws r4)"
      "\<And>m. length (skip_ws r4) - length rest \<le> m \<Longrightarrow>
         scan_members m (dict_set acc k v0) (skip_ws r4) = Some (v, rest)"
      unfolding members_fuel_def by blast+
    note ls = scan_string_shorter[OF more(2)] skip_ws_Cons_length[OF more(3)]
      skip_ws_length[of r2] skip_ws_Cons_length[OF more(5)] skip_ws_length[of r4]
    from ls ih(1) ih2(1) more(1) have l: "length rest < length s" by simp
    have "scan_members m acc s = Some (v, rest)" if "length s - length rest \<le> m" for m
    proof -
      from that l obtain m' where m: "m = Suc m'" by (cases m) auto
      with that ls ih(1) ih2(1) more(1) have "length (skip_ws r2) - length r3 \<le> m'"
        "length (skip_ws r4) - length rest \<le> m'" by simp_all
      from ih(2)[OF this(1)] ih2(2)[OF this(2)] m more show ?thesis by simp
    qed
    with l show ?thesis by blast
  qed
qed

lemma elements_fuel_Suc:
  assumes "value_fuel n" "elements_fuel n"
  shows "elements_fuel (Suc n)"
  unfolding elements_fuel_def
proof (intro allI impI)
  fix acc s v rest
  assume sc: "scan_elements (Suc n) acc s = Some (v, rest)"
  from sc show "length rest < length s \<and>
     (\<forall>m. length s - length rest \<le> m \<longrightarrow> scan_elements m acc s = Some (v, rest))"
  proof (cases rule: scan_elements_Suc_cases)
    case (last v0 r1)
    from assms(1) last(1) have ih: "length r1 < length s"
      "\<And>m. length s - length r1 \<le> m \<Longrightarrow> scan_value m s = Some (v0, r1)"
      unfolding value_fuel_def by blast+
    note ls = skip_ws_Cons_length[OF last(2)]
    from ls ih(1) have l: "length rest < length s" by simp
    have "scan_elements m acc s = Some (v, rest)" if "length s - length rest \<le> m" for m
    proof -
      from that l obtain m' where m: "m = Suc m'" by (cases m) auto
      with that ls ih(1) have "length s - length r1 \<le> m'" by simp
      from ih(2)[OF this] m last show ?thesis by simp
    qed
    with l show ?thesis by blast
  next
    case (more v0 r1 r2)
    from assms(1) more(1) have ih: "length r1 < length s"
      "\<And>m. length s - length r1 \<le> m \<Longrightarrow> scan_value m s = Some (v0, r1)"
      unfolding value_fuel_def by blast+
    from assms(2) more(3) have ih2: "length rest < length (skip_ws r2)"
      "\<And>m. length (skip_ws r2) - length rest \<le> m \<Longrightarrow>
         scan_elements m (acc @ [v0]) (skip_ws r2) = Some (v, rest)"
      unfolding elements_fuel_def by blast+
    note ls = skip_ws_Cons_length[OF more(2)] skip_ws_length[of r2]
    from ls ih(1) ih2(1) have l: "length rest < length s" by simp
    have "scan_elements m acc s = Some (v, rest)" if "length s - length rest \<le> m" for m
    proof -
      from that l obtain m' where m: "m = Suc m'" by (cases m) auto
      with that ls ih(1) ih2(1) have "length s - length r1 \<le> m'"
        "length (skip_ws r2) - length rest \<le> m'" by simp_all
      from ih(2)[OF this(1)] ih2(2)[OF this(2)] m more show ?thesis by simp
    qed
    with l show ?thesis by blast
  qed
qed

lemma scan_fuel: "value_fuel n \<and> members_fuel n \<and> elements_fuel n"
proof (induction n)
  case 0
  show ?case by (simp add: value_fuel_def members_fuel_def elements_fuel_def)
next
  case (Suc n)
  then show ?case using value_fuel_Suc members_fuel_Suc elements_fuel_Suc by blast
qed

section \<open>Recovery of a fenced text with a trailing comma\<close>

lemma recover_strict:
  assumes "loads (sanitize payload) = Inr (JObj kvs)"
    and "\<forall>key\<in>set required_keys. map_of kvs key \<noteq> None"
  shows "pillars_from_content loads repair (OtherContent payload) = Inr (JObj kvs)"
proof -
  have "find (\<lambda>key. map_of kvs key = None) required_keys = None"
    using assms(2) by (simp add: find_None_iff_all)
  with assms(1) show ?thesis
    by (simp add: pillars_from_content_def parse_or_repair_def check_pillars_def)
qed

lemma json_loads_removed:
  assumes "json_loads J = Inr v" "commas_removed J J'"
  shows "\<exists>v'. json_loads J' = Inr v' \<and> same_shape v v'"
proof -
  from assms(1) obtain rest where
    sc: "scan_value (Suc (length J)) (skip_ws J) = Some (v, rest)" and r: "skip_ws rest = []"
    by (auto simp: json_loads_def split: option.splits if_splits)
  from scan_value_start[OF sc] obtain c t where ct: "skip_ws J = c # t" "token_char c" by blast
  from skip_ws_token_removed[OF assms(2) ct] ct(1)
  have d: "commas_removed (skip_ws J) (skip_ws J')" by auto
  from scan_sim[of "Suc (length J)"] sc d obtain v' rest' where
    sc': "scan_value (Suc (length J)) (skip_ws J') = Some (v', rest')"
    and dr: "commas_removed rest rest'" and sh: "same_shape v v'"
    unfolding value_sim_def by blast
  from skip_ws_removed_Nil[OF dr r] have r': "skip_ws rest' = []" .
  from scan_fuel[of "Suc (length J)"] sc'
  have "\<And>m. length (skip_ws J') - length rest' \<le> m \<Longrightarrow>
          scan_value m (skip_ws J') = Some (v', rest')"
    unfolding value_fuel_def by blast
  from this[of "Suc (length J')"] skip_ws_length[of J']
  have "scan_value (Suc (length J')) (skip_ws J') = Some (v', rest')" by simp
  with r' sh show ?thesis by (simp add: json_loads_def)
qed


lemma required_keys_kept:
  assumes "keeps_keys kvs kvs'" "\<forall>key\<in>set required_keys. map_of kvs key \<noteq> None"
  shows "\<forall>key\<in>set required_keys. map_of kvs' key \<noteq> None"
proof
  fix key assume k: "key \<in> set required_keys"
  then have "CHR '','' \<notin> set key" by (auto simp: required_keys_def)
  with assms k show "map_of kvs' key \<noteq> None" unfolding keeps_keys_def by blast
qed



section \<open>Recovery of a strict text\<close>

lemma startswith_hd: "startswith s p \<Longrightarrow> p \<noteq> [] \<Longrightarrow> s \<noteq> [] \<Longrightarrow> hd s = hd p"
  by (cases p; cases s) (auto simp: startswith_def)

lemma sanitize_object_text:
  assumes "J \<noteq> []" "hd J = CHR ''{''" "last J = CHR ''}''"
  shows "sanitize J = fix_trailing_commas J"
proof -
  have "strip J = J"
    using strip_blank[of "[]" "[]" J] assms by simp
  moreover have "\<not> startswith J ''```''"
    using startswith_hd[of J "''```''"] assms by auto
  ultimately show ?thesis by (simp add: sanitize_def strip_fences_def)
qed

text \<open>
  A strict text of an object with the three keys is recovered as an object with the
  three keys; it is the object of the text when the text holds no comma before a closing
  bracket, which in a strict text can only be inside a string.
\<close>

lemma strict_text_recovered:
  assumes "J \<noteq> []" "hd J = CHR ''{''" "last J = CHR ''}''"
    and "json_loads J = Inr (JObj kvs)"
    and "\<forall>key\<in>set required_keys. map_of kvs key \<noteq> None"
  shows "\<exists>kvs'. pillars_from_content json_loads repair (OtherContent J) = Inr (JObj kvs') \<and>
               (\<forall>key\<in>set required_keys. map_of kvs' key \<noteq> None) \<and>
               (fix_trailing_commas J = J \<longrightarrow> kvs' = kvs)"
proof -
  note s = sanitize_object_text[OF assms(1-3)]
  from json_loads_removed[OF assms(4) removed_fix[of J]] obtain kvs' where
    k: "json_loads (fix_trailing_commas J) = Inr (JObj kvs')" "keeps_keys kvs kvs'"
    by (auto simp: same_shape_def)
  from required_keys_kept[OF k(2) assms(5)]
  have ks: "\<forall>key\<in>set required_keys. map_of kvs' key \<noteq> None" .
  from recover_strict[of json_loads J kvs' repair] k(1) ks s
  have "pillars_from_content json_loads repair (OtherContent J) = Inr (JObj kvs')" by simp
  moreover have "kvs' = kvs" if "fix_trailing_commas J = J"
    using that k(1) assms(4) by simp
  ultimately show ?thesis using ks by blast
qed
end
